theory Spec2Isabelle
  imports Main "HOL-Library.Word"
begin

unbundle bit_operations_syntax

section \<open>The WFS on-disk format (wfs.h)\<close>

text \<open>
  Conventions of the embedding.  The platform is the one the Makefile targets: LP64 Linux,
  little endian, \<open>int\<close> 32 bits, \<open>size_t\<close> and \<open>off_t\<close> 64 bits.  Functions that
  return a C \<open>int\<close> return an Isabelle \<open>int\<close>; a negative value is \<open>-errno\<close>.  A C
  string is a list of bytes; it ends at its first NUL byte or at the end of the list.
\<close>

type_synonym byte = "8 word"

definition WFS_MAGIC_SIZE :: nat where "WFS_MAGIC_SIZE = 16"
definition WFS_FILENAME_SIZE :: nat where "WFS_FILENAME_SIZE = 58"
definition WFS_BLOCK_SIZE :: nat where "WFS_BLOCK_SIZE = 512"
definition WFS_N_FILES :: nat where "WFS_N_FILES = 64"
definition WFS_N_BLOCKS :: nat where "WFS_N_BLOCKS = 16384"
definition WFS_SIZE_MASK :: "32 word" where "WFS_SIZE_MASK = 0x0fffffff"
definition WFS_SIZE_IS_DIRECTORY :: "32 word" where "WFS_SIZE_IS_DIRECTORY = push_bit 31 1"
definition WFS_BLOCK_FREE :: nat where "WFS_BLOCK_FREE = 0"
definition WFS_BLOCK_EOF :: nat where "WFS_BLOCK_EOF = 0xfffe"

text \<open>\<open>sizeof(wfs_file_entry_t)\<close>: the struct is packed, 58 + 2 + 4 bytes.\<close>

definition sizeof_entry :: nat where "sizeof_entry = 64"

definition WFS_ENTRIES_START :: nat where "WFS_ENTRIES_START = WFS_MAGIC_SIZE"

definition WFS_BLOCK_TABLE_START :: nat where
  "WFS_BLOCK_TABLE_START = WFS_ENTRIES_START + WFS_N_FILES * sizeof_entry"

definition WFS_BLOCK_TABLE_SIZE :: nat where
  "WFS_BLOCK_TABLE_SIZE = WFS_N_BLOCKS * 2"

definition WFS_DATA_START :: nat where
  "WFS_DATA_START = WFS_BLOCK_TABLE_START + WFS_BLOCK_TABLE_SIZE"

definition wfs_get_size :: nat where
  "wfs_get_size = WFS_MAGIC_SIZE + sizeof_entry * WFS_N_FILES + WFS_N_BLOCKS * 2
                   + WFS_N_BLOCKS * WFS_BLOCK_SIZE"

definition PATH_MAX :: nat where "PATH_MAX = 4096"

definition EIO :: int where "EIO = 5"
definition ENOENT :: int where "ENOENT = 2"
definition ENOTDIR :: int where "ENOTDIR = 20"
definition EISDIR :: int where "EISDIR = 21"
definition EINVAL :: int where "EINVAL = 22"
definition ENAMETOOLONG :: int where "ENAMETOOLONG = 36"
definition ENOSYS :: int where "ENOSYS = 38"

record wfs_file_entry_t =
  filename :: "byte list"
  start_block :: "16 word"
  size_f :: "32 word"

text \<open>The initialiser \<open>{ { 0, }, }\<close> and \<open>memset(&e, 0, sizeof e)\<close>.\<close>

definition zero_entry :: wfs_file_entry_t where
  "zero_entry = \<lparr>filename = replicate WFS_FILENAME_SIZE 0, start_block = 0, size_f = 0\<rparr>"

text \<open>\<open>s[i]\<close> for a C string: the terminator is read at the end of the list.\<close>

definition char_at :: "byte list \<Rightarrow> nat \<Rightarrow> byte" where
  "char_at s i = (if i < length s then s ! i else 0)"

definition wfs_file_entry_is_empty :: "wfs_file_entry_t \<Rightarrow> bool" where
  "wfs_file_entry_is_empty entry =
     (if char_at (filename entry) 0 = 0 \<or> unat (start_block entry) = WFS_BLOCK_FREE
      then True else False)"

definition wfs_file_entry_is_directory :: "wfs_file_entry_t \<Rightarrow> bool" where
  "wfs_file_entry_is_directory entry =
     (if (size_f entry AND WFS_SIZE_IS_DIRECTORY) = WFS_SIZE_IS_DIRECTORY
      then True else False)"

definition wfs_file_entry_get_size :: "wfs_file_entry_t \<Rightarrow> 32 word" where
  "wfs_file_entry_get_size entry = size_f entry AND WFS_SIZE_MASK"

text \<open>The argument is a C \<open>int\<close>, the result a \<open>uint32_t\<close>.\<close>

definition wfs_get_block_offset :: "int \<Rightarrow> nat" where
  "wfs_get_block_offset block =
     nat ((int WFS_DATA_START + block * int WFS_BLOCK_SIZE) mod 2 ^ 32)"

section \<open>The backing image and \<open>pread\<close>\<close>

text \<open>
  The image is the regular file that \<open>wfs_image_open\<close> accepted: \<open>wfs_check_image\<close> has
  established that it holds at least \<open>wfs_get_size()\<close> bytes, so its length is
  \<open>wfs_get_size\<close> plus \<open>extra\<close>.  \<open>preads\<close> logs every \<open>pread\<close> call (offset, count) in
  order.  The source calls no other system call on the descriptor while mounted.
  Transfer errors of the device (\<open>pread\<close> returning -1) are outside the model; a read
  that reaches the end of the file is short, as for a regular file.
\<close>

record wfs_image_t =
  contents :: "nat \<Rightarrow> byte"
  extra :: nat
  preads :: "(nat \<times> nat) list"

definition image_size :: "wfs_image_t \<Rightarrow> nat" where
  "image_size img = wfs_get_size + extra img"

definition pread :: "wfs_image_t \<Rightarrow> nat \<Rightarrow> nat \<Rightarrow> byte list \<times> wfs_image_t" where
  "pread img count offset =
     (map (contents img) [offset ..< min (offset + count) (image_size img)],
      img\<lparr>preads := preads img @ [(offset, count)]\<rparr>)"

text \<open>
  A buffer of \<open>n\<close> bytes after a \<open>pread\<close> into it.  The source reads into uninitialised
  locals; the bytes a short read leaves untouched are indeterminate in C and are taken to
  be zero here.
\<close>

definition buffer :: "nat \<Rightarrow> byte list \<Rightarrow> byte list" where
  "buffer n bs = take n (bs @ replicate n 0)"

definition le16 :: "byte list \<Rightarrow> 16 word" where
  "le16 bs = word_of_nat (unat (char_at bs 0) + 256 * unat (char_at bs 1))"

definition le32 :: "byte list \<Rightarrow> 32 word" where
  "le32 bs = word_of_nat (unat (char_at bs 0) + 256 * unat (char_at bs 1)
                + 65536 * unat (char_at bs 2) + 16777216 * unat (char_at bs 3))"

definition entry_of_bytes :: "byte list \<Rightarrow> wfs_file_entry_t" where
  "entry_of_bytes bs =
     (let b = buffer sizeof_entry bs
      in \<lparr>filename = take WFS_FILENAME_SIZE b,
          start_block = le16 (drop 58 b),
          size_f = le32 (drop 60 b)\<rparr>)"

section \<open>Low-level file system routines (wfsfuse.c)\<close>

text \<open>\<open>idx\<close> is a \<open>uint16_t\<close>; \<open>value\<close> starts as 0 and the result of \<open>pread\<close> is ignored.\<close>

definition wfs_block_table_read :: "wfs_image_t \<Rightarrow> nat \<Rightarrow> nat \<times> wfs_image_t" where
  "wfs_block_table_read img idx =
     (let offset = (WFS_BLOCK_TABLE_START + idx * 2) mod 2 ^ 32;
          (bs, img') = pread img 2 offset
      in (unat (le16 (buffer 2 bs)), img'))"

text \<open>
  The conversion of the \<open>int\<close> expression \<open>current_block - 1\<close> to the \<open>uint16_t\<close>
  parameter \<open>idx\<close>.
\<close>

definition to_uint16 :: "int \<Rightarrow> nat" where
  "to_uint16 i = nat (i mod 65536)"

definition wfs_get_block :: "wfs_image_t \<Rightarrow> nat \<Rightarrow> nat \<times> wfs_image_t" where
  "wfs_get_block img current_block =
     wfs_block_table_read img (to_uint16 (int current_block - 1))"

text \<open>
  \<open>current_block\<close> is a \<open>uint16_t\<close>; in \<open>current_block - 1 >= WFS_N_BLOCKS\<close> it is
  promoted to \<open>int\<close>, so the subtraction does not wrap.
\<close>

definition wfs_get_next_block :: "wfs_image_t \<Rightarrow> nat \<Rightarrow> nat \<times> wfs_image_t" where
  "wfs_get_next_block img current_block =
     (if current_block = WFS_BLOCK_EOF then (current_block, img)
      else if int current_block - 1 \<ge> int WFS_N_BLOCKS then (WFS_BLOCK_EOF, img)
      else wfs_block_table_read img (to_uint16 (int current_block - 1)))"

text \<open>
  \<open>off\<close> is an \<open>off_t\<close>; the only caller, \<open>wfs_read\<close>, passes an offset it has checked
  to lie between 0 and the file size, so it is a natural number here.  \<open>block_position\<close>
  is the caller's variable: it is left as it was on the early returns.
\<close>

function wfs_get_current_block_loop ::
  "wfs_image_t \<Rightarrow> nat \<Rightarrow> nat \<Rightarrow> nat \<Rightarrow> nat \<Rightarrow> nat \<times> nat \<times> wfs_image_t" where
  "wfs_get_current_block_loop img off o' block block_position =
     (if off \<ge> o' + WFS_BLOCK_SIZE then
        (let (block', img') = wfs_block_table_read img (to_uint16 (int block - 1))
         in if block' = WFS_BLOCK_EOF then (block', block_position, img')
            else wfs_get_current_block_loop img' off (o' + WFS_BLOCK_SIZE) block' block_position)
      else (block, to_uint16 (int off - int o'), img))"
  by pat_completeness auto
termination
  by (relation "measure (\<lambda>(img, off, o', block, block_position). off - o')")
     (auto simp: WFS_BLOCK_SIZE_def)

definition wfs_get_current_block ::
  "wfs_image_t \<Rightarrow> wfs_file_entry_t \<Rightarrow> nat \<Rightarrow> nat \<Rightarrow> nat \<times> nat \<times> wfs_image_t" where
  "wfs_get_current_block img entry off block_position =
     (let block = unat (start_block entry)
      in if block = WFS_BLOCK_EOF then (block, block_position, img)
         else wfs_get_current_block_loop img off 0 block block_position)"

section \<open>C strings\<close>

definition slash :: byte where "slash = 47"

fun strchr :: "byte list \<Rightarrow> byte \<Rightarrow> byte list option" where
  "strchr [] c = (if c = 0 then Some [] else None)"
| "strchr (x # xs) c =
     (if x = c then Some (x # xs) else if x = 0 then None else strchr xs c)"

definition strlen :: "byte list \<Rightarrow> nat" where
  "strlen s = length (takeWhile (\<lambda>c. c \<noteq> 0) s)"

definition strnlen :: "byte list \<Rightarrow> nat \<Rightarrow> nat" where
  "strnlen s n = min (strlen s) n"

text \<open>\<open>strncpy(dst, src, n)\<close> with \<open>n\<close> within \<open>dst\<close>: the copy is padded with NULs.\<close>

definition strncpy :: "byte list \<Rightarrow> byte list \<Rightarrow> nat \<Rightarrow> byte list" where
  "strncpy dst src n = take n (takeWhile (\<lambda>c. c \<noteq> 0) src @ replicate n 0) @ drop n dst"

fun strncmp :: "byte list \<Rightarrow> byte list \<Rightarrow> nat \<Rightarrow> int" where
  "strncmp a b 0 = 0"
| "strncmp a b (Suc n) =
     (let x = char_at a 0; y = char_at b 0
      in if x \<noteq> y then int (unat x) - int (unat y)
         else if x = 0 then 0
         else strncmp (tl a) (tl b) n)"

section \<open>Generic file entry operations\<close>

datatype wfs_file_entry_op_t =
    WFS_FILE_ENTRY_OP_FIND
  | WFS_FILE_ENTRY_OP_COUNT
  | WFS_FILE_ENTRY_OP_CALLBACK
  | WFS_FILE_ENTRY_OP_MKDIR
  | WFS_FILE_ENTRY_OP_RMDIR

text \<open>
  The \<open>for\<close> loop of \<open>wfs_file_entry_operation\<close>.  The result is the returned \<open>int\<close>, the
  caller's \<open>*entry\<close>, the caller's \<open>callback_data\<close> and the image.  The cases
  \<open>WFS_FILE_ENTRY_OP_MKDIR\<close> (an empty case) and \<open>WFS_FILE_ENTRY_OP_RMDIR\<close> (no case) do
  nothing with the slot read.
\<close>

function wfs_file_entry_loop ::
  "wfs_image_t \<Rightarrow> wfs_file_entry_op_t \<Rightarrow> (wfs_file_entry_t \<Rightarrow> 'd \<Rightarrow> 'd) \<Rightarrow> nat \<Rightarrow> nat
     \<Rightarrow> nat \<Rightarrow> int \<Rightarrow> wfs_file_entry_t \<Rightarrow> 'd \<Rightarrow> int \<times> wfs_file_entry_t \<times> 'd \<times> wfs_image_t" where
  "wfs_file_entry_loop img op callback aantalfiles entrystart i count entry callback_data =
     (if i < aantalfiles then
        (let (bs, img') = pread img sizeof_entry (entrystart + i * sizeof_entry);
             tmp_entry = entry_of_bytes bs
         in case op of
              WFS_FILE_ENTRY_OP_FIND \<Rightarrow>
                if wfs_file_entry_is_empty tmp_entry then
                  wfs_file_entry_loop img' op callback aantalfiles entrystart (i + 1) count
                    entry callback_data
                else if strncmp (filename tmp_entry) (filename entry) WFS_FILENAME_SIZE = 0
                then (1, tmp_entry, callback_data, img')
                else
                  wfs_file_entry_loop img' op callback aantalfiles entrystart (i + 1) count
                    entry callback_data
            | WFS_FILE_ENTRY_OP_COUNT \<Rightarrow>
                wfs_file_entry_loop img' op callback aantalfiles entrystart (i + 1)
                  (if \<not> wfs_file_entry_is_empty tmp_entry then count + 1 else count)
                  entry callback_data
            | WFS_FILE_ENTRY_OP_CALLBACK \<Rightarrow>
                wfs_file_entry_loop img' op callback aantalfiles entrystart (i + 1) count entry
                  (if \<not> wfs_file_entry_is_empty tmp_entry then callback tmp_entry callback_data
                   else callback_data)
            | WFS_FILE_ENTRY_OP_MKDIR \<Rightarrow>
                wfs_file_entry_loop img' op callback aantalfiles entrystart (i + 1) count
                  entry callback_data
            | WFS_FILE_ENTRY_OP_RMDIR \<Rightarrow>
                wfs_file_entry_loop img' op callback aantalfiles entrystart (i + 1) count
                  entry callback_data)
      else (count, entry, callback_data, img))"
  by pat_completeness auto
termination
  by (relation "measure (\<lambda>(img, op, callback, aantalfiles, entrystart, i, rest). aantalfiles - i)")
     auto

text \<open>
  \<open>parent\<close> is never a null pointer in this file, so the \<open>!parent\<close> test is not a branch
  of the model.  Where the source passes \<open>NULL\<close> for \<open>entry\<close> or \<open>callback\<close> (they are
  then not dereferenced), the callers below pass \<open>zero_entry\<close> and a callback that does
  nothing.
\<close>

definition wfs_file_entry_operation ::
  "wfs_image_t \<Rightarrow> wfs_file_entry_t \<Rightarrow> wfs_file_entry_op_t \<Rightarrow> wfs_file_entry_t
     \<Rightarrow> (wfs_file_entry_t \<Rightarrow> 'd \<Rightarrow> 'd) \<Rightarrow> 'd \<Rightarrow> int \<times> wfs_file_entry_t \<times> 'd \<times> wfs_image_t" where
  "wfs_file_entry_operation img parent op entry callback callback_data =
     (let count = 0;
          aantalfiles = 16;
          entrystart = WFS_ENTRIES_START;
          entrystart = (if \<not> wfs_file_entry_is_empty parent
                        then wfs_get_block_offset (int (unat (start_block parent)) - 1)
                        else entrystart)
      in if op = WFS_FILE_ENTRY_OP_FIND \<and> char_at (filename entry) 0 = 0
         then (- EINVAL, entry, callback_data, img)
         else wfs_file_entry_loop img op callback aantalfiles entrystart 0 count entry
                callback_data)"

section \<open>Path resolution\<close>

text \<open>
  The \<open>while\<close> loop of \<open>wfs_find_entry\<close>.  \<open>path\<close> is the rest of the string the C
  pointer points at, \<open>end'\<close> the distance from \<open>path\<close> to the C pointer \<open>end\<close>
  (\<open>None\<close> where the source returns the current entry).  The result is \<open>Some e\<close> when
  the source returns true with \<open>*entry = e\<close>, and \<open>None\<close> when it returns false.
\<close>

function wfs_find_entry_loop ::
  "wfs_image_t \<Rightarrow> byte list \<Rightarrow> wfs_file_entry_t \<Rightarrow> wfs_file_entry_t option \<times> wfs_image_t" where
  "wfs_find_entry_loop img path current_entry =
     (case strchr path slash of
        None \<Rightarrow> (Some current_entry, img)
      | Some path1 \<Rightarrow>
          (let parent_entry = current_entry;
               path2 = dropWhile (\<lambda>c. c = slash) path1;
               end' = (case strchr path2 slash of
                         Some e \<Rightarrow> Some (length path2 - length e)
                       | None \<Rightarrow>
                           (let len = strnlen path2 PATH_MAX
                            in if len > 0 then Some len else None))
           in case end' of
                None \<Rightarrow> (Some current_entry, img)
              | Some e \<Rightarrow>
                  (let len = e + 1
                   in if len \<ge> WFS_FILENAME_SIZE - 1 then (None, img)
                      else
                        (let current_entry =
                               zero_entry\<lparr>filename :=
                                 (strncpy (filename zero_entry) path2 len)[len - 1 := 0]\<rparr>
                         in if char_at (filename current_entry) 0 \<noteq> 0 then
                              (case wfs_file_entry_operation img parent_entry
                                      WFS_FILE_ENTRY_OP_FIND current_entry (\<lambda>_ d. d) () of
                                 (r, current_entry, _, img') \<Rightarrow>
                                   if r \<le> 0 then (None, img')
                                   else wfs_find_entry_loop img' (drop e path2) current_entry)
                            else wfs_find_entry_loop img (drop e path2) current_entry))))"
  by pat_completeness auto
termination
proof -
  have strchr_len: "\<And>s p. strchr s slash = Some p \<Longrightarrow> length p \<le> length s \<and> p \<noteq> [] \<and> hd p = slash"
  proof -
    fix s p show "strchr s slash = Some p \<Longrightarrow> length p \<le> length s \<and> p \<noteq> [] \<and> hd p = slash"
      by (induction s) (auto simp: slash_def split: if_splits)
  qed
  have shorter: "\<And>s p e. strchr s slash = Some p \<Longrightarrow>
      length (drop e (dropWhile (\<lambda>c. c = slash) p)) < length s"
  proof -
    fix s p e assume a: "strchr s slash = Some p"
    then obtain t where p: "p = slash # t" and l: "length p \<le> length s"
      using strchr_len [OF a] by (cases p) auto
    have "length (dropWhile (\<lambda>c. c = slash) p) \<le> length t"
      unfolding p by (simp add: length_dropWhile_le)
    then show "length (drop e (dropWhile (\<lambda>c. c = slash) p)) < length s"
      using l p by simp
  qed
  have shorter': "\<And>s p e. strchr s slash = Some p \<Longrightarrow>
      length (dropWhile (\<lambda>c. c = slash) p) - e < length s"
    using shorter by simp
  show ?thesis
    by (relation "measure (\<lambda>(img, path, current_entry). length path)")
       (auto simp: shorter')
qed

definition wfs_find_entry ::
  "wfs_image_t \<Rightarrow> byte list \<Rightarrow> wfs_file_entry_t option \<times> wfs_image_t" where
  "wfs_find_entry img path =
     (if strlen path = 0 then (None, img)
      else if char_at path 0 \<noteq> slash then (None, img)
      else wfs_find_entry_loop img path zero_entry)"

text \<open>The string a \<open>char *\<close> denotes: the bytes before the terminator.\<close>

definition cstr :: "byte list \<Rightarrow> byte list" where
  "cstr s = takeWhile (\<lambda>c. c \<noteq> 0) s"

definition drop_trailing_slashes :: "byte list \<Rightarrow> byte list" where
  "drop_trailing_slashes path_copy = rev (dropWhile (\<lambda>c. c = slash) (rev (cstr path_copy)))"

text \<open>\<open>strrchr(s, '/')\<close> as the index of the last slash.\<close>

definition strrchr_slash :: "byte list \<Rightarrow> nat option" where
  "strrchr_slash s =
     (if slash \<in> set (cstr s)
      then Some (length (cstr s) - 1 - length (takeWhile (\<lambda>c. c \<noteq> slash) (rev (cstr s))))
      else None)"

text \<open>
  The result is the returned code and the caller's \<open>*parent_entry\<close>, which the source
  writes only on the paths that return 0.
\<close>

definition wfs_get_parent_entry ::
  "wfs_image_t \<Rightarrow> byte list \<Rightarrow> wfs_file_entry_t \<Rightarrow> int \<times> wfs_file_entry_t \<times> wfs_image_t" where
  "wfs_get_parent_entry img path parent_entry =
     (let path_copy = drop_trailing_slashes path
      in if strlen path_copy = 0 then (- EINVAL, parent_entry, img)
         else case strrchr_slash path_copy of
                None \<Rightarrow> (- EINVAL, parent_entry, img)
              | Some sep \<Rightarrow>
                  if sep = 0 then (0, zero_entry, img)
                  else
                    (let dirname = take sep path_copy
                     in case wfs_find_entry img dirname of
                          (None, img') \<Rightarrow> (- ENOENT, parent_entry, img')
                        | (Some parent_entry, img') \<Rightarrow>
                            if \<not> wfs_file_entry_is_empty parent_entry
                               \<and> \<not> wfs_file_entry_is_directory parent_entry
                            then (- EIO, parent_entry, img')
                            else (0, parent_entry, img')))"

text \<open>\<open>None\<close> is the null pointer.\<close>

definition wfs_get_basename :: "byte list \<Rightarrow> byte list option" where
  "wfs_get_basename path =
     (let path_copy = drop_trailing_slashes path
      in if strlen path_copy = 0 then None
         else case strrchr_slash path_copy of
                None \<Rightarrow> None
              | Some sep \<Rightarrow> Some (drop (sep + 1) path_copy))"

section \<open>The FUSE operations\<close>

text \<open>
  \<open>buf\<close> with \<open>filler\<close> is the list of names handed to FUSE so far; \<open>filler\<close> appends
  the C string it is given: the one that starts at \<open>entry->filename\<close>.  Where the name
  fills all 58 bytes of its field the string runs on into \<open>start_block\<close> and \<open>size\<close>
  of the packed record, given by \<open>entry_bytes\<close>; were none of the 64 bytes NUL, it would
  run on into memory that is not modelled.
\<close>

definition entry_bytes :: "wfs_file_entry_t \<Rightarrow> byte list" where
  "entry_bytes entry =
     filename entry
     @ [ucast (start_block entry), ucast (drop_bit 8 (start_block entry))]
     @ [ucast (size_f entry), ucast (drop_bit 8 (size_f entry)),
        ucast (drop_bit 16 (size_f entry)), ucast (drop_bit 24 (size_f entry))]"

definition wfs_readdir_callback :: "wfs_file_entry_t \<Rightarrow> byte list list \<Rightarrow> byte list list" where
  "wfs_readdir_callback entry data = data @ [cstr (entry_bytes entry)]"

definition wfs_readdir ::
  "wfs_image_t \<Rightarrow> byte list \<Rightarrow> byte list list \<Rightarrow> int \<times> byte list list \<times> wfs_image_t" where
  "wfs_readdir img path buf =
     (case wfs_find_entry img path of
        (None, img') \<Rightarrow> (- ENOENT, buf, img')
      | (Some entry, img') \<Rightarrow>
          if \<not> wfs_file_entry_is_empty entry \<and> \<not> wfs_file_entry_is_directory entry
          then (- ENOTDIR, buf, img')
          else
            (let buf = buf @ [[46]];
                 buf = buf @ [[46, 46]]
             in case wfs_file_entry_operation img' entry WFS_FILE_ENTRY_OP_CALLBACK zero_entry
                       wfs_readdir_callback buf of
                  (r, e, buf, img'') \<Rightarrow> (0, buf, img'')))"

text \<open>
  \<open>wfs_mkdir\<close> as the source has it.  \<open>strlen(name)\<close> dereferences the null pointer when
  \<open>wfs_get_basename\<close> returns it: the result is then \<open>None\<close>, the process is killed.
  \<open>lengte\<close> and \<open>path2\<close> are locals that nothing reads.  \<open>parent\<close> points to fresh
  \<open>malloc\<close> memory whose contents \<open>malloc_junk\<close> stay when \<open>wfs_get_parent_entry\<close>
  fails.  The unfinished statement
  \<open>wfs_file_entry_operation(parent, WFS_FILE_ENTRY_OP_MKDIR,)\<close> is taken as the call it
  starts, with the local \<open>entry\<close> and no callback.
\<close>

definition wfs_mkdir ::
  "wfs_image_t \<Rightarrow> byte list \<Rightarrow> wfs_file_entry_t \<Rightarrow> int option \<times> wfs_image_t" where
  "wfs_mkdir img path malloc_junk =
     (case wfs_get_basename path of
        None \<Rightarrow> (None, img)
      | Some name \<Rightarrow>
          (case wfs_get_parent_entry img path malloc_junk of
             (res, parent, img') \<Rightarrow>
               (case wfs_file_entry_operation img' parent WFS_FILE_ENTRY_OP_MKDIR zero_entry
                       (\<lambda>_ d. d) () of
                  (r, e, d, img'') \<Rightarrow> (Some (- ENOSYS), img''))))"

definition wfs_rmdir :: "wfs_image_t \<Rightarrow> byte list \<Rightarrow> int \<times> wfs_image_t" where
  "wfs_rmdir img path = (- ENOSYS, img)"

record stat =
  st_mode :: nat
  st_nlink :: nat
  st_size :: nat

definition S_IFDIR :: nat where "S_IFDIR = 16384"
definition S_IFREG :: nat where "S_IFREG = 32768"

text \<open>\<open>strcmp(path, "/") == 0\<close>; the modes are \<open>S_IFDIR | 0755\<close> (octal) and the like.\<close>

definition is_root_path :: "byte list \<Rightarrow> bool" where
  "is_root_path path = (cstr path = [slash])"

definition wfs_getattr :: "wfs_image_t \<Rightarrow> byte list \<Rightarrow> int \<times> stat \<times> wfs_image_t" where
  "wfs_getattr img path =
     (let stbuf = \<lparr>st_mode = 0, st_nlink = 0, st_size = 0\<rparr>
      in if is_root_path path
         then (0, stbuf\<lparr>st_mode := S_IFDIR + 493, st_nlink := 2\<rparr>, img)
         else case wfs_find_entry img path of
                (None, img') \<Rightarrow> (- ENOENT, stbuf, img')
              | (Some entry, img') \<Rightarrow>
                  (let stbuf = (if wfs_file_entry_is_directory entry
                                then stbuf\<lparr>st_mode := S_IFDIR + 292, st_nlink := 2\<rparr>
                                else stbuf\<lparr>st_mode := S_IFREG + 292, st_nlink := 1\<rparr>)
                   in (0, stbuf\<lparr>st_size := unat (wfs_file_entry_get_size entry)\<rparr>, img')))"

definition wfs_open :: "wfs_image_t \<Rightarrow> byte list \<Rightarrow> int \<times> wfs_image_t" where
  "wfs_open img path =
     (case wfs_find_entry img path of
        (None, img') \<Rightarrow> (- ENOENT, img')
      | (Some entry, img') \<Rightarrow>
          if wfs_file_entry_is_directory entry then (- EISDIR, img') else (0, img'))"

definition wfs_create :: "wfs_image_t \<Rightarrow> byte list \<Rightarrow> int \<times> wfs_image_t" where
  "wfs_create img path = (- ENOSYS, img)"

text \<open>Addition of C \<open>int\<close>s, wrapping to 32 bits.\<close>

definition to_int32 :: "int \<Rightarrow> int" where
  "to_int32 i = (i + 2147483648) mod 4294967296 - 2147483648"

text \<open>
  The \<open>while\<close> loop of \<open>wfs_read\<close>.  \<open>size\<close> is the \<open>size_t\<close>, \<open>block\<close> and \<open>read\<close> the
  \<open>int\<close>s, \<open>block_position\<close> and \<open>transfer\<close> the \<open>uint16_t\<close>s of the source; \<open>buf\<close>
  collects the bytes stored at \<open>buf + read\<close>.  The result is the returned \<open>int\<close>, the
  bytes delivered and the image.
\<close>

function wfs_read_loop ::
  "wfs_image_t \<Rightarrow> nat \<Rightarrow> nat \<Rightarrow> nat \<Rightarrow> int \<Rightarrow> byte list \<Rightarrow> int \<times> byte list \<times> wfs_image_t" where
  "wfs_read_loop img size' block block_position read buf =
     (if size' > 0 \<and> block > WFS_BLOCK_FREE \<and> block \<le> WFS_BLOCK_EOF then
        (let block_offset = wfs_get_block_offset (int block - 1);
             transfer = (if block_position = 0 then WFS_BLOCK_SIZE
                         else to_uint16 (int WFS_BLOCK_SIZE - int block_position));
             transfer = (if transfer > size' then size' else transfer);
             (bs, img') = pread img transfer (block_offset + block_position);
             transfer = length bs;
             size' = size' - transfer;
             read = to_int32 (read + int transfer);
             buf = buf @ bs
         in if size' > 0 then
              (let (block, img'') = wfs_get_next_block img' block;
                   block_position = 0
               in if block = WFS_BLOCK_FREE \<or> block \<ge> WFS_BLOCK_EOF then (- EIO, buf, img'')
                  else wfs_read_loop img'' size' block block_position read buf)
            else wfs_read_loop img' size' block block_position read buf)
      else (read, buf, img))"
  by pat_completeness auto
termination
proof -
  have full: "\<And>img block n. 0 < block \<Longrightarrow> block \<le> WFS_N_BLOCKS \<Longrightarrow> n \<le> WFS_BLOCK_SIZE \<Longrightarrow>
     length (fst (pread img n (wfs_get_block_offset (int block - 1)))) = n"
    by (auto simp: pread_def wfs_get_block_offset_def image_size_def wfs_get_size_def
          WFS_DATA_START_def WFS_BLOCK_TABLE_START_def WFS_BLOCK_TABLE_SIZE_def
          WFS_ENTRIES_START_def WFS_MAGIC_SIZE_def WFS_N_FILES_def sizeof_entry_def
          WFS_N_BLOCKS_def WFS_BLOCK_SIZE_def nat_mod_distrib nat_add_distrib nat_mult_distrib)
  have nxt: "\<And>img block. fst (wfs_get_next_block img block) < WFS_BLOCK_EOF \<Longrightarrow>
      block \<le> WFS_N_BLOCKS"
    by (auto simp: wfs_get_next_block_def WFS_BLOCK_EOF_def WFS_N_BLOCKS_def split: if_splits)
  have le: "\<And>img n off. length (fst (pread img n off)) \<le> n"
    by (auto simp: pread_def)
  show ?thesis
  proof (relation "measure (\<lambda>(img, size', block, block_position, read, buf).
          2 * size' + (if block_position = 0 then 0 else 1))", goal_cases)
    case 1 show ?case by simp
  next
    case (2 img size' block block_position read buf bo tr tr2 x bs img' tr3 sz rd bf y blk img'' bp)
    have "(blk, img'') = wfs_get_next_block img' block" using 2 by simp
    then have "fst (wfs_get_next_block img' block) = blk" by (metis fst_conv)
    moreover have "blk < WFS_BLOCK_EOF" using 2 by simp
    ultimately have b: "block \<le> WFS_N_BLOCKS" using nxt [of img' block] by simp
    have pr: "(bs, img') = pread img tr2 (bo + block_position)" using 2 by simp
    then have bs: "bs = fst (pread img tr2 (bo + block_position))" by (metis fst_conv)
    show ?case
    proof (cases "block_position = 0")
      case True
      have "tr2 \<le> WFS_BLOCK_SIZE" using 2 True by (auto split: if_splits)
      then have "length (fst (pread img tr2 (wfs_get_block_offset (int block - 1)))) = tr2"
        using full [of block tr2 img] b 2 by (auto simp: WFS_BLOCK_FREE_def)
      then have "length bs = tr2" using bs True 2 by simp
      moreover have "0 < tr2" using 2 True by (auto simp: WFS_BLOCK_SIZE_def split: if_splits)
      moreover have "tr2 \<le> size'" using 2 by (auto split: if_splits)
      ultimately show ?thesis using 2 True by (auto simp: )
    next
      case False
      have "length bs \<le> tr2" using bs le [of img tr2 "bo + block_position"] by simp
      then show ?thesis using 2 False by auto
    qed
  next
    case (3 img size' block block_position read buf bo tr tr2 x bs img' tr3 sz rd bf)
    then show ?case by auto
  qed
qed

text \<open>
  \<open>size\<close> is the \<open>size_t\<close> and \<open>offset\<close> the bits of the \<open>off_t\<close> argument.  In
  \<open>offset > current_size\<close> and in \<open>offset + size > current_size\<close> the \<open>off_t\<close> is
  converted to the unsigned type, and the sum wraps at \<open>2 ^ 64\<close>.  \<open>block_position\<close> is
  uninitialised before the call of \<open>wfs_get_current_block\<close> and not read when that call
  leaves it so.
\<close>

definition wfs_read ::
  "wfs_image_t \<Rightarrow> byte list \<Rightarrow> 64 word \<Rightarrow> 64 word \<Rightarrow> int \<times> byte list \<times> wfs_image_t" where
  "wfs_read img path size' offset =
     (case wfs_find_entry img path of
        (None, img') \<Rightarrow> (- ENOENT, [], img')
      | (Some entry, img') \<Rightarrow>
          (let current_size = unat (wfs_file_entry_get_size entry)
           in if unat offset > current_size then (- EINVAL, [], img')
              else
                (let (block, block_position, img'') =
                       wfs_get_current_block img' entry (unat offset) 0
                 in if block \<ge> WFS_BLOCK_EOF then (- EIO, [], img'')
                    else
                      (let size'' = (if unat (offset + size') > current_size
                                    then current_size - unat offset
                                    else unat size')
                       in wfs_read_loop img'' size'' block block_position 0 []))))"

definition wfs_write ::
  "wfs_image_t \<Rightarrow> byte list \<Rightarrow> byte list \<Rightarrow> 64 word \<Rightarrow> 64 word \<Rightarrow> int \<times> wfs_image_t" where
  "wfs_write img path buf size' offset = (- ENOSYS, img)"

section \<open>The callback table\<close>

text \<open>
  \<open>wfs_oper\<close> hands the eight functions to \<open>fuse_main\<close>, which calls them as requests
  arrive.  A request carries the arguments the function reads; \<open>wfs_oper\<close> gives the
  image after the call, and \<open>fuse_main\<close> serves a sequence of requests in order.
\<close>

datatype fuse_request =
    Readdir "byte list" "byte list list"
  | Mkdir "byte list" wfs_file_entry_t
  | Rmdir "byte list"
  | Getattr "byte list"
  | Open "byte list"
  | Create "byte list"
  | Read "byte list" "64 word" "64 word"
  | Write "byte list" "byte list" "64 word" "64 word"

fun wfs_oper :: "wfs_image_t \<Rightarrow> fuse_request \<Rightarrow> wfs_image_t" where
  "wfs_oper img (Readdir path buf) = snd (snd (wfs_readdir img path buf))"
| "wfs_oper img (Mkdir path malloc_junk) = snd (wfs_mkdir img path malloc_junk)"
| "wfs_oper img (Rmdir path) = snd (wfs_rmdir img path)"
| "wfs_oper img (Getattr path) = snd (snd (wfs_getattr img path))"
| "wfs_oper img (Open path) = snd (wfs_open img path)"
| "wfs_oper img (Create path) = snd (wfs_create img path)"
| "wfs_oper img (Read path size' offset) = snd (snd (wfs_read img path size' offset))"
| "wfs_oper img (Write path buf size' offset) = snd (wfs_write img path buf size' offset)"

fun fuse_main :: "wfs_image_t \<Rightarrow> fuse_request list \<Rightarrow> wfs_image_t" where
  "fuse_main img [] = img"
| "fuse_main img (r # rs) = fuse_main (wfs_oper img r) rs"

section \<open>Notions used in the statements and proofs\<close>

text \<open>Two images hold the same bytes and have the same length.\<close>

definition unchanged :: "wfs_image_t \<Rightarrow> wfs_image_t \<Rightarrow> bool" where
  "unchanged img img' = (contents img' = contents img \<and> extra img' = extra img)"

text \<open>
  The part of one turn of the loop in \<open>wfs_find_entry\<close> that only looks at the path:
  the loop ends, the component is refused for its length, or a component is copied into
  the name field and the rest of the path is left.
\<close>

datatype parse = Done | TooLong | Comp "byte list" "byte list"

definition find_parse :: "byte list \<Rightarrow> parse" where
  "find_parse path =
     (case strchr path slash of
        None \<Rightarrow> Done
      | Some path1 \<Rightarrow>
          (let path2 = dropWhile (\<lambda>c. c = slash) path1;
               end' = (case strchr path2 slash of
                         Some e \<Rightarrow> Some (length path2 - length e)
                       | None \<Rightarrow>
                           (let len = strnlen path2 PATH_MAX
                            in if len > 0 then Some len else None))
           in case end' of
                None \<Rightarrow> Done
              | Some e \<Rightarrow>
                  if e + 1 \<ge> WFS_FILENAME_SIZE - 1 then TooLong
                  else Comp ((strncpy (filename zero_entry) path2 (e + 1))[e := 0])
                         (drop e path2)))"

text \<open>The number of bytes one turn of the loop in \<open>wfs_read\<close> asks \<open>pread\<close> for.\<close>

definition read_request :: "nat \<Rightarrow> nat \<Rightarrow> nat" where
  "read_request sz bp =
     (let transfer = (if bp = 0 then WFS_BLOCK_SIZE
                      else to_uint16 (int WFS_BLOCK_SIZE - int bp))
      in if transfer > sz then sz else transfer)"

text \<open>The entry record that a read of one slot at file offset \<open>off\<close> delivers.\<close>

definition slot :: "wfs_image_t \<Rightarrow> nat \<Rightarrow> wfs_file_entry_t" where
  "slot img off = entry_of_bytes (fst (pread img sizeof_entry off))"

text \<open>
  The slot of the directory of \<open>parent\<close> at which \<open>wfs_file_entry_operation\<close> starts,
  and the reads it logs for the slots \<open>i\<close> up to \<open>n\<close>.
\<close>

definition entrystart_of :: "wfs_file_entry_t \<Rightarrow> nat" where
  "entrystart_of parent =
     (if \<not> wfs_file_entry_is_empty parent
      then wfs_get_block_offset (int (unat (start_block parent)) - 1)
      else WFS_ENTRIES_START)"

definition slot_reads :: "nat \<Rightarrow> nat \<Rightarrow> nat \<Rightarrow> (nat \<times> nat) list" where
  "slot_reads start i n = map (\<lambda>j. (start + j * sizeof_entry, sizeof_entry)) [i..<n]"

text \<open>
  The components of a path as the specification describes them: the maximal runs of
  bytes other than \<open>/\<close>, up to the terminator.  \<open>plain\<close> holds of such a run,
  \<open>stops\<close> of what may follow it, \<open>absolute\<close> of what may precede it: nothing, or
  bytes that start with \<open>/\<close>.
\<close>

definition absolute :: "byte list \<Rightarrow> bool" where
  "absolute pre = (case pre of [] \<Rightarrow> True | c # _ \<Rightarrow> c = slash)"

definition stops :: "byte list \<Rightarrow> bool" where
  "stops rest = (case rest of [] \<Rightarrow> True | c # _ \<Rightarrow> c = slash \<or> c = 0)"

definition plain :: "byte list \<Rightarrow> bool" where
  "plain cmp = list_all (\<lambda>c. c \<noteq> slash \<and> c \<noteq> 0) cmp"

function components :: "byte list \<Rightarrow> byte list list" where
  "components s =
     (case dropWhile (\<lambda>c. c = slash) s of
        [] \<Rightarrow> []
      | c # p \<Rightarrow>
          if c = 0 then []
          else takeWhile (\<lambda>c. c \<noteq> slash \<and> c \<noteq> 0) (c # p)
                 # components (dropWhile (\<lambda>c. c \<noteq> slash \<and> c \<noteq> 0) (c # p)))"
  by pat_completeness auto
termination
proof (relation "measure length", goal_cases)
  case 1 show ?case by simp
next
  case (2 s c p)
  have "\<not> (hd (dropWhile (\<lambda>c. c = slash) s) = slash)"
    using 2(1) hd_dropWhile [of "\<lambda>c. c = slash" s] by auto
  then have c: "c \<noteq> slash" using 2(1) by simp
  have "length (c # p) \<le> length s"
    using 2(1) length_dropWhile_le [of "\<lambda>c. c = slash" s] by simp
  moreover have "length (dropWhile (\<lambda>c. c \<noteq> slash \<and> c \<noteq> 0) p) \<le> length p"
    by (rule length_dropWhile_le)
  ultimately show ?case using c 2(2) by simp
qed

section \<open>Example images\<close>

text \<open>
  An image of the minimal length that starts with the magic number
  (\<open>WFS_MAGIC0\<close> to \<open>WFS_MAGIC3\<close>, little endian), given by its other bytes that are
  not zero.  In the paths below 47 is the byte \<open>/\<close>, 46 is \<open>.\<close>, and 97, 100, 102
  and 120 are \<open>a\<close>, \<open>d\<close>, \<open>f\<close> and \<open>x\<close>.
\<close>

definition image_of :: "(nat \<times> byte) list \<Rightarrow> wfs_image_t" where
  "image_of al =
     \<lparr>contents = (\<lambda>i. case map_of ([(0, 0xee), (1, 0xff), (2, 0xc0), (8, 0x50), (9, 0x13),
                                          (10, 0x0d), (11, 0xf0), (12, 0xef), (13, 0xbe)] @ al) i of
                          Some b \<Rightarrow> b | None \<Rightarrow> 0),
      extra = 0, preads = []\<rparr>"

text \<open>
  The root table holds in slot 0 the regular file \<open>f\<close>: 512 bytes, start block 1, whose
  chain ends there (table slot 0 is \<open>WFS_BLOCK_EOF\<close>).  Its data block starts with the
  byte \<open>x\<close> and has 9 at position 58.
\<close>

definition image_one_file :: wfs_image_t where
  "image_one_file = image_of [(16, 102), (74, 1), (77, 2), (4112, 0xFE), (4113, 0xFF),
     (36880, 120), (36938, 9)]"

definition entry_f :: wfs_file_entry_t where
  "entry_f = \<lparr>filename = 102 # replicate 57 0, start_block = 1, size_f = 512\<rparr>"

text \<open>The record at the start of the data block of \<open>f\<close>, read as a directory entry.\<close>

definition entry_x :: wfs_file_entry_t where
  "entry_x = \<lparr>filename = 120 # replicate 57 0, start_block = 9, size_f = 0\<rparr>"

text \<open>
  An image whose only entry is the file \<open>a\<close> (start block 1) in slot 16 of the root
  table, at offset 16 + 16 * 64 = 1040.
\<close>

definition image_root_slot_16 :: wfs_image_t where
  "image_root_slot_16 = image_of [(1040, 97), (1098, 1)]"

definition entry_a :: wfs_file_entry_t where
  "entry_a = \<lparr>filename = 97 # replicate 57 0, start_block = 1, size_f = 0\<rparr>"

text \<open>
  An image whose root table holds in slot 0 the directory \<open>d\<close>, start block 1.  Its
  chain is 1, 3, 4 (table slots 0, 2 and 3 hold 3, 4 and \<open>WFS_BLOCK_EOF\<close>); block 2 is
  free.  Block 3, at offset 37904, holds in its first slot the entry \<open>x\<close>, start
  block 5.
\<close>

definition image_dir :: wfs_image_t where
  "image_dir = image_of [(16, 100), (74, 1), (79, 128),
     (4112, 3), (4116, 4), (4118, 0xFE), (4119, 0xFF),
     (37904, 120), (37962, 5)]"

definition entry_d :: wfs_file_entry_t where
  "entry_d = \<lparr>filename = 100 # replicate 57 0, start_block = 1, size_f = 0x80000000\<rparr>"

definition entry_dx :: wfs_file_entry_t where
  "entry_dx = \<lparr>filename = 120 # replicate 57 0, start_block = 5, size_f = 0\<rparr>"


text \<open>
  An image whose root table holds in slot 0 an entry named by 56 bytes \<open>a\<close>, start
  block 1.
\<close>

definition image_long_name :: wfs_image_t where
  "image_long_name =
     \<lparr>contents = (\<lambda>i. if 16 \<le> i \<and> i < 72 then 97 else if i = 74 then 1
                          else contents (image_of []) i),
      extra = 0, preads = []\<rparr>"

definition entry_long :: wfs_file_entry_t where
  "entry_long = \<lparr>filename = replicate 56 97 @ [0, 0], start_block = 1, size_f = 0\<rparr>"

section \<open>Frame: the image is only read\<close>

declare wfs_get_current_block_loop.simps [simp del] wfs_file_entry_loop.simps [simp del]
  wfs_find_entry_loop.simps [simp del] wfs_read_loop.simps [simp del]

lemma unchanged_refl [simp]: "unchanged img img"
  by (simp add: unchanged_def)

lemma unchanged_trans: "unchanged a b \<Longrightarrow> unchanged b c \<Longrightarrow> unchanged a c"
  by (simp add: unchanged_def)

lemma unchanged_pread: "unchanged img (snd (pread img n off))"
  by (simp add: unchanged_def pread_def)

lemma pread_cong: "unchanged img img' \<Longrightarrow> fst (pread img' n off) = fst (pread img n off)"
  by (simp add: unchanged_def pread_def image_size_def)

lemma unchanged_block_table_read: "unchanged img (snd (wfs_block_table_read img idx))"
  by (simp add: wfs_block_table_read_def Let_def split: prod.splits)
     (metis unchanged_pread snd_conv)

lemma unchanged_get_next_block: "unchanged img (snd (wfs_get_next_block img b))"
  by (simp add: wfs_get_next_block_def unchanged_block_table_read)

lemma unchanged_get_current_block_loop:
  "unchanged img (snd (snd (wfs_get_current_block_loop img off o' block bp)))"
proof (induction img off o' block bp rule: wfs_get_current_block_loop.induct)
  case (1 img off o' block bp)
  show ?case
  proof (cases "off \<ge> o' + WFS_BLOCK_SIZE")
    case False
    then show ?thesis by (subst wfs_get_current_block_loop.simps) simp
  next
    case True
    obtain b' img' where r: "wfs_block_table_read img (to_uint16 (int block - 1)) = (b', img')"
      by (cases "wfs_block_table_read img (to_uint16 (int block - 1))")
    have u: "unchanged img img'" using unchanged_block_table_read [of img "to_uint16 (int block - 1)"] r by simp
    show ?thesis
    proof (cases "b' = WFS_BLOCK_EOF")
      case True
      then show ?thesis using \<open>off \<ge> o' + WFS_BLOCK_SIZE\<close> r u
        by (subst wfs_get_current_block_loop.simps) simp
    next
      case False
      have "unchanged img' (snd (snd (wfs_get_current_block_loop img' off (o' + WFS_BLOCK_SIZE) b' bp)))"
        using 1 [OF True refl r [symmetric] False] .
      then show ?thesis using True r u False
        by (subst wfs_get_current_block_loop.simps) (auto intro: unchanged_trans)
    qed
  qed
qed

lemma unchanged_get_current_block:
  "unchanged img (snd (snd (wfs_get_current_block img e off bp)))"
  by (simp add: wfs_get_current_block_def Let_def unchanged_get_current_block_loop)

lemma unchanged_file_entry_loop:
  "unchanged img (snd (snd (snd (wfs_file_entry_loop img op cb n start i count entry data))))"
proof (induction img op cb n start i count entry data rule: wfs_file_entry_loop.induct)
  case (1 img op cb n start i count entry data)
  show ?case
  proof (cases "i < n")
    case False
    then show ?thesis by (subst wfs_file_entry_loop.simps) simp
  next
    case True
    obtain bs img' where r: "pread img sizeof_entry (start + i * sizeof_entry) = (bs, img')"
      by (cases "pread img sizeof_entry (start + i * sizeof_entry)")
    have u: "unchanged img img'" using unchanged_pread [of img sizeof_entry "start + i * sizeof_entry"] r by simp
    note IH = 1 [OF True refl r [symmetric] refl]
    show ?thesis
      using True r u IH
      by (subst wfs_file_entry_loop.simps)
         (auto simp: Let_def split: wfs_file_entry_op_t.splits intro: unchanged_trans)
  qed
qed

lemma unchanged_file_entry_operation:
  "unchanged img (snd (snd (snd (wfs_file_entry_operation img parent op entry cb data))))"
  by (simp add: wfs_file_entry_operation_def Let_def unchanged_file_entry_loop)

lemma find_loop_unfold:
  "wfs_find_entry_loop img path cur =
     (case find_parse path of
        Done \<Rightarrow> (Some cur, img)
      | TooLong \<Rightarrow> (None, img)
      | Comp name rest \<Rightarrow>
          if char_at name 0 \<noteq> 0 then
            (case wfs_file_entry_operation img cur WFS_FILE_ENTRY_OP_FIND
                    (zero_entry\<lparr>filename := name\<rparr>) (\<lambda>_ d. d) () of
               (r, cur', _, img') \<Rightarrow>
                 if r \<le> 0 then (None, img') else wfs_find_entry_loop img' rest cur')
          else wfs_find_entry_loop img rest (zero_entry\<lparr>filename := name\<rparr>))"
  by (subst wfs_find_entry_loop.simps)
     (simp add: find_parse_def Let_def split: option.splits)

lemma strchr_slash_Some:
  "strchr s slash = Some p \<Longrightarrow> \<exists>t. p = slash # t \<and> length p \<le> length s"
  by (induction s) (auto simp: slash_def split: if_splits)

lemma find_parse_shorter:
  assumes "find_parse path = Comp name rest"
  shows "length rest < length path"
proof -
  from assms obtain path1 where p1: "strchr path slash = Some path1"
    by (auto simp: find_parse_def split: option.splits)
  then obtain t where t: "path1 = slash # t" "length path1 \<le> length path"
    using strchr_slash_Some by blast
  have "length (dropWhile (\<lambda>c. c = slash) path1) \<le> length t"
    unfolding t by (simp add: length_dropWhile_le)
  moreover from assms p1 obtain e where "rest = drop e (dropWhile (\<lambda>c. c = slash) path1)"
    by (auto simp: find_parse_def Let_def split: option.splits if_splits)
  ultimately show ?thesis using t by simp
qed

lemma unchanged_find_entry_loop:
  "unchanged img (snd (wfs_find_entry_loop img path cur))"
proof (induction path arbitrary: img cur rule: length_induct)
  case (1 path)
  show ?case
  proof (cases "find_parse path")
    case Done
    then show ?thesis by (subst find_loop_unfold) simp
  next
    case TooLong
    then show ?thesis by (subst find_loop_unfold) simp
  next
    case (Comp name rest)
    have IH: "\<And>img cur. unchanged img (snd (wfs_find_entry_loop img rest cur))"
      using 1 find_parse_shorter [OF Comp] by blast
    obtain r cur' d img' where op:
      "wfs_file_entry_operation img cur WFS_FILE_ENTRY_OP_FIND
         (zero_entry\<lparr>filename := name\<rparr>) (\<lambda>_ d. d) () = (r, cur', d, img')"
      by (metis prod_cases4)
    have u: "unchanged img img'"
      using unchanged_file_entry_operation [of img cur WFS_FILE_ENTRY_OP_FIND
          "zero_entry\<lparr>filename := name\<rparr>" "\<lambda>_ d. d" "()"] op by simp
    show ?thesis
      using Comp op u IH [of img] unchanged_trans [OF u IH [of img']]
      by (subst find_loop_unfold) simp
  qed
qed

lemma unchanged_find_entry: "unchanged img (snd (wfs_find_entry img path))"
  by (simp add: wfs_find_entry_def unchanged_find_entry_loop)

lemma unchanged_get_parent_entry:
  "unchanged img (snd (snd (wfs_get_parent_entry img path pe)))"
proof -
  have "\<And>d r img'. wfs_find_entry img d = (r, img') \<Longrightarrow> unchanged img img'"
    using unchanged_find_entry by (metis snd_conv)
  then show ?thesis
    by (auto simp: wfs_get_parent_entry_def Let_def split: option.splits prod.splits)
qed

lemma find_entry_unchanged: "wfs_find_entry img path = (r, img') \<Longrightarrow> unchanged img img'"
  using unchanged_find_entry by (metis snd_conv)

lemma file_entry_operation_unchanged:
  "wfs_file_entry_operation img parent op entry cb data = (r, e, d, img') \<Longrightarrow> unchanged img img'"
  using unchanged_file_entry_operation by (metis snd_conv)

lemma get_parent_entry_unchanged:
  "wfs_get_parent_entry img path pe = (r, e, img') \<Longrightarrow> unchanged img img'"
  using unchanged_get_parent_entry by (metis snd_conv)

lemma get_current_block_unchanged:
  "wfs_get_current_block img e off bp = (b, bp', img') \<Longrightarrow> unchanged img img'"
  using unchanged_get_current_block by (metis snd_conv)

lemma get_next_block_unchanged:
  "wfs_get_next_block img b = (b', img') \<Longrightarrow> unchanged img img'"
  using unchanged_get_next_block by (metis snd_conv)

lemma pread_unchanged: "pread img n off = (bs, img') \<Longrightarrow> unchanged img img'"
  using unchanged_pread by (metis snd_conv)

lemma unchanged_readdir: "unchanged img (snd (snd (wfs_readdir img path buf)))"
  by (auto simp: wfs_readdir_def Let_def split: prod.splits option.splits
           dest: find_entry_unchanged file_entry_operation_unchanged intro: unchanged_trans)

lemma unchanged_mkdir: "unchanged img (snd (wfs_mkdir img path junk))"
  by (auto simp: wfs_mkdir_def split: prod.splits option.splits
           dest!: get_parent_entry_unchanged file_entry_operation_unchanged intro: unchanged_trans)

lemma unchanged_getattr: "unchanged img (snd (snd (wfs_getattr img path)))"
  by (auto simp: wfs_getattr_def Let_def split: prod.splits option.splits
           dest: find_entry_unchanged)

lemma unchanged_open: "unchanged img (snd (wfs_open img path))"
  by (auto simp: wfs_open_def split: prod.splits option.splits dest: find_entry_unchanged)

lemma read_loop_stop:
  "\<not> (sz > 0 \<and> block > WFS_BLOCK_FREE \<and> block \<le> WFS_BLOCK_EOF) \<Longrightarrow>
     wfs_read_loop img sz block bp rd buf = (rd, buf, img)"
  by (subst wfs_read_loop.simps) (simp only: if_False)

lemma read_loop_step:
  assumes "sz > 0" "block > WFS_BLOCK_FREE" "block \<le> WFS_BLOCK_EOF"
    and "pread img (read_request sz bp) (wfs_get_block_offset (int block - 1) + bp) = (bs, img')"
    and "wfs_get_next_block img' block = (nb, img'')"
  shows "wfs_read_loop img sz block bp rd buf =
        (if sz - length bs > 0 then
           (if nb = WFS_BLOCK_FREE \<or> nb \<ge> WFS_BLOCK_EOF then (- EIO, buf @ bs, img'')
            else wfs_read_loop img'' (sz - length bs) nb 0 (to_int32 (rd + int (length bs)))
                   (buf @ bs))
         else wfs_read_loop img' (sz - length bs) block bp (to_int32 (rd + int (length bs)))
                (buf @ bs))"
  using assms unfolding read_request_def Let_def
  by (subst wfs_read_loop.simps) (simp add: Let_def split del: if_split cong: if_cong)

lemma pread_length: "length (fst (pread img n off)) \<le> n"
  by (simp add: pread_def)

lemma read_request_le: "read_request sz bp \<le> sz"
  by (simp add: read_request_def Let_def)

lemma unchanged_read_loop:
  "unchanged img (snd (snd (wfs_read_loop img sz block bp rd buf)))"
proof (induction img sz block bp rd buf rule: wfs_read_loop.induct)
  case (1 img sz block bp rd buf)
  let ?c = "sz > 0 \<and> block > WFS_BLOCK_FREE \<and> block \<le> WFS_BLOCK_EOF"
  show ?case
  proof (cases ?c)
    case False
    then show ?thesis by (simp add: read_loop_stop)
  next
    case True
    define tr where "tr = (if bp = 0 then WFS_BLOCK_SIZE else to_uint16 (int WFS_BLOCK_SIZE - int bp))"
    define tr2 where "tr2 = (if tr > sz then sz else tr)"
    have tr2: "tr2 = read_request sz bp" by (simp add: tr2_def tr_def read_request_def Let_def)
    obtain bs img' where r: "pread img tr2 (wfs_get_block_offset (int block - 1) + bp) = (bs, img')"
      by (cases "pread img tr2 (wfs_get_block_offset (int block - 1) + bp)")
    have u: "unchanged img img'" using pread_unchanged [OF r] .
    obtain nb img'' where n: "wfs_get_next_block img' block = (nb, img'')"
      by (cases "wfs_get_next_block img' block")
    have u': "unchanged img' img''" using get_next_block_unchanged [OF n] .
    define sz' where "sz' = sz - length bs"
    define rd' where "rd' = to_int32 (rd + int (length bs))"
    have eq: "wfs_read_loop img sz block bp rd buf =
        (if sz' > 0 then
           (if nb = WFS_BLOCK_FREE \<or> nb \<ge> WFS_BLOCK_EOF then (- EIO, buf @ bs, img'')
            else wfs_read_loop img'' sz' nb 0 rd' (buf @ bs))
         else wfs_read_loop img' sz' block bp rd' (buf @ bs))"
      using read_loop_step [OF _ _ _ r [unfolded tr2] n, of rd buf] True
      by (simp add: sz'_def rd'_def)
    show ?thesis
    proof (cases "sz' > 0")
      case False
      have "unchanged img' (snd (snd (wfs_read_loop img' sz' block bp rd' (buf @ bs))))"
        using 1(2) [OF True refl tr_def tr2_def refl r [symmetric] refl sz'_def rd'_def refl False] .
      then show ?thesis using eq False u by (auto intro: unchanged_trans)
    next
      case pos: True
      show ?thesis
      proof (cases "nb = WFS_BLOCK_FREE \<or> nb \<ge> WFS_BLOCK_EOF")
        case True
        then show ?thesis using eq pos unchanged_trans [OF u u'] by simp
      next
        case False
        have "unchanged img'' (snd (snd (wfs_read_loop img'' sz' nb 0 rd' (buf @ bs))))"
          using 1(1) [OF \<open>?c\<close> refl tr_def tr2_def refl r [symmetric] refl sz'_def rd'_def refl pos
                         refl n [symmetric] refl False] .
        then show ?thesis
          using eq pos False unchanged_trans [OF u u'] by (auto intro: unchanged_trans)
      qed
    qed
  qed
qed

lemma unchanged_read: "unchanged img (snd (snd (wfs_read img path sz off)))"
  by (auto simp: wfs_read_def Let_def split: prod.splits option.splits
           dest!: find_entry_unchanged get_current_block_unchanged
           intro: unchanged_trans unchanged_read_loop)

lemma unchanged_oper: "unchanged img (wfs_oper img r)"
  by (cases r)
     (simp_all add: unchanged_readdir unchanged_mkdir unchanged_getattr unchanged_open
        unchanged_read wfs_rmdir_def wfs_create_def wfs_write_def)

lemma unchanged_fuse_main: "unchanged img (fuse_main img rs)"
proof (induction rs arbitrary: img)
  case Nil
  show ?case by simp
next
  case (Cons r rs)
  show ?case using unchanged_trans [OF unchanged_oper Cons] by simp
qed

section \<open>Reading slots, parsing paths, resolving\<close>

declare components.simps [simp del]

lemma empty_slot:
  assumes "contents img off = 0"
  shows "wfs_file_entry_is_empty (slot img off)"
proof (cases "off < image_size img")
  case True
  then have "[off..<min (off + 64) (image_size img)] = off # [Suc off..<min (off + 64) (image_size img)]"
    by (simp add: upt_conv_Cons)
  then show ?thesis using assms
    by (simp add: slot_def wfs_file_entry_is_empty_def entry_of_bytes_def pread_def buffer_def
        sizeof_entry_def WFS_FILENAME_SIZE_def char_at_def Let_def)
next
  case False
  then show ?thesis
    by (simp add: slot_def wfs_file_entry_is_empty_def entry_of_bytes_def pread_def buffer_def
        sizeof_entry_def WFS_FILENAME_SIZE_def char_at_def Let_def)
qed

lemma file_entry_loop_end:
  "\<not> i < n \<Longrightarrow> wfs_file_entry_loop img op cb n start i count entry data = (count, entry, data, img)"
  by (subst wfs_file_entry_loop.simps) simp

lemma file_entry_loop_skip:
  assumes "i < n" "wfs_file_entry_is_empty (slot img (start + i * sizeof_entry))"
  shows "wfs_file_entry_loop img op cb n start i count entry data =
         wfs_file_entry_loop (snd (pread img sizeof_entry (start + i * sizeof_entry))) op cb n start
           (i + 1) count entry data"
  using assms
  by (subst wfs_file_entry_loop.simps)
     (simp add: slot_def Let_def case_prod_beta split: wfs_file_entry_op_t.splits)

lemma file_entry_loop_find_hit:
  assumes "i < n" "\<not> wfs_file_entry_is_empty (slot img (start + i * sizeof_entry))"
    "strncmp (filename (slot img (start + i * sizeof_entry))) (filename entry) WFS_FILENAME_SIZE = 0"
  shows "wfs_file_entry_loop img WFS_FILE_ENTRY_OP_FIND cb n start i count entry data =
         (1, slot img (start + i * sizeof_entry), data,
          snd (pread img sizeof_entry (start + i * sizeof_entry)))"
  using assms
  by (subst wfs_file_entry_loop.simps) (simp add: slot_def Let_def case_prod_beta)

lemma file_entry_loop_find_miss:
  assumes "i < n" "\<not> wfs_file_entry_is_empty (slot img (start + i * sizeof_entry))"
    "strncmp (filename (slot img (start + i * sizeof_entry))) (filename entry) WFS_FILENAME_SIZE \<noteq> 0"
  shows "wfs_file_entry_loop img WFS_FILE_ENTRY_OP_FIND cb n start i count entry data =
         wfs_file_entry_loop (snd (pread img sizeof_entry (start + i * sizeof_entry)))
           WFS_FILE_ENTRY_OP_FIND cb n start (i + 1) count entry data"
  using assms
  by (subst wfs_file_entry_loop.simps) (simp add: slot_def Let_def case_prod_beta)

lemma strchr_plain:
  "plain cmp \<Longrightarrow> strchr (cmp @ rest) slash = strchr rest slash"
  by (induction cmp) (auto simp: plain_def)

lemma strchr_stops:
  "stops rest \<Longrightarrow> strchr rest slash = (case rest of [] \<Rightarrow> None | c # _ \<Rightarrow> if c = slash then Some rest else None)"
  by (cases rest) (auto simp: stops_def slash_def)

lemma cstr_plain: "plain cmp \<Longrightarrow> takeWhile (\<lambda>c. c \<noteq> 0) (cmp @ rest) = cmp @ takeWhile (\<lambda>c. c \<noteq> 0) rest"
  by (induction cmp) (auto simp: plain_def)

lemma takeWhile_plain: "plain cmp \<Longrightarrow> takeWhile (\<lambda>c. c \<noteq> 0) cmp = cmp"
  by (induction cmp) (auto simp: plain_def)

lemma strlen_plain_stop:
  "plain cmp \<Longrightarrow> stops rest \<Longrightarrow> strchr rest slash = None \<Longrightarrow> strlen (cmp @ rest) = length cmp"
  by (cases rest) (auto simp: strlen_def cstr_plain takeWhile_plain stops_def slash_def split: if_splits)

lemma dropWhile_slash_plain:
  "cmp \<noteq> [] \<Longrightarrow> plain cmp \<Longrightarrow> dropWhile (\<lambda>c. c = slash) (cmp @ rest) = cmp @ rest"
  by (cases cmp) (auto simp: plain_def)

lemma name_field:
  assumes "plain cmp" "length cmp < 56"
  shows "(strncpy (filename zero_entry) (cmp @ rest) (length cmp + 1))[length cmp := 0]
           = cmp @ replicate (58 - length cmp) 0"
proof -
  let ?n = "length cmp"
  let ?t = "takeWhile (\<lambda>c. c \<noteq> 0) rest @ replicate (?n + 1) 0"
  have t: "?t \<noteq> []" by simp
  then obtain z zs where z: "?t = z # zs" by (cases ?t) auto
  have "take (?n + 1) (takeWhile (\<lambda>c. c \<noteq> 0) (cmp @ rest) @ replicate (?n + 1) 0) = cmp @ [z]"
    using z by (simp add: cstr_plain [OF assms(1)])
  moreover have "drop (?n + 1) (filename zero_entry) = replicate (57 - ?n) 0"
    using assms(2) by (simp add: zero_entry_def WFS_FILENAME_SIZE_def)
  ultimately have "strncpy (filename zero_entry) (cmp @ rest) (?n + 1) = cmp @ z # replicate (57 - ?n) 0"
    by (simp add: strncpy_def)
  then have "(strncpy (filename zero_entry) (cmp @ rest) (?n + 1))[?n := 0] = cmp @ 0 # replicate (57 - ?n) 0"
    by (simp add: list_update_append)
  moreover have "(0::byte) # replicate (57 - ?n) 0 = replicate (58 - ?n) 0"
  proof -
    have "58 - ?n = Suc (57 - ?n)" using assms(2) by simp
    then show ?thesis by (simp only: replicate_Suc)
  qed
  ultimately show ?thesis by simp
qed

lemma find_parse_component:
  assumes "cmp \<noteq> []" "plain cmp" "stops rest"
  shows "find_parse (slash # cmp @ rest) =
           (if 56 \<le> length cmp then TooLong
            else Comp (cmp @ replicate (58 - length cmp) 0) rest)"
proof -
  have p1: "strchr (slash # cmp @ rest) slash = Some (slash # cmp @ rest)" by simp
  have p2: "dropWhile (\<lambda>c. c = slash) (cmp @ rest) = cmp @ rest"
    using dropWhile_slash_plain [OF assms(1,2)] .
  have pos: "0 < length cmp" using assms(1) by simp
  show ?thesis
  proof (cases "strchr rest slash")
    case None
    have l: "strlen (cmp @ rest) = length cmp"
      using strlen_plain_stop [OF assms(2,3) None] .
    have s: "strchr (cmp @ rest) slash = None"
      using strchr_plain [OF assms(2)] None by simp
    show ?thesis
    proof (cases "length cmp \<le> PATH_MAX")
      case True
      then have e: "strnlen (cmp @ rest) PATH_MAX = length cmp" by (simp add: strnlen_def l)
      show ?thesis
        using pos name_field [OF assms(2), of rest]
        by (simp add: find_parse_def p2 s e Let_def WFS_FILENAME_SIZE_def)
    next
      case False
      then have e: "strnlen (cmp @ rest) PATH_MAX = PATH_MAX" by (simp add: strnlen_def l)
      show ?thesis
        using False e
        by (simp add: find_parse_def p2 s Let_def WFS_FILENAME_SIZE_def PATH_MAX_def)
    qed
  next
    case (Some r)
    then have r: "r = rest" using strchr_stops [OF assms(3)] by (auto split: list.splits if_splits)
    have s: "strchr (cmp @ rest) slash = Some rest"
      using strchr_plain [OF assms(2)] Some r by simp
    show ?thesis
      using pos name_field [OF assms(2), of rest]
      by (simp add: find_parse_def p2 s Let_def WFS_FILENAME_SIZE_def)
  qed
qed

lemma find_parse_slashes:
  "find_parse (slash # slash # p) = find_parse (slash # p)"
  by (simp add: find_parse_def)

lemma find_parse_done:
  assumes "strchr rest slash = None" "strlen rest = 0"
  shows "find_parse rest = Done" "find_parse (slash # rest) = Done"
proof -
  show "find_parse rest = Done" using assms by (simp add: find_parse_def)
  have "dropWhile (\<lambda>c. c = slash) rest = rest"
    using assms(1) by (cases rest) (auto split: if_splits)
  then show "find_parse (slash # rest) = Done"
    using assms by (simp add: find_parse_def Let_def strnlen_def)
qed

lemma takeWhile_eq_replicate:
  "takeWhile (\<lambda>c. c = a) xs = replicate (length (takeWhile (\<lambda>c. c = a) xs)) a"
  by (induction xs) auto

lemma find_parse_replicate:
  "find_parse (replicate (Suc k) slash @ q) = find_parse (slash # q)"
  by (induction k) (simp_all add: find_parse_slashes)

lemma split_slashes:
  "p = replicate (length (takeWhile (\<lambda>c. c = slash) p)) slash @ dropWhile (\<lambda>c. c = slash) p"
  using takeWhile_eq_replicate [of slash p] takeWhile_dropWhile_id [of "\<lambda>c. c = slash" p]
  by metis

lemma path_shape_done:
  assumes "dropWhile (\<lambda>c. c = slash) p = [] \<or> (\<exists>t. dropWhile (\<lambda>c. c = slash) p = 0 # t)"
  shows "components p = []" "find_parse p = Done"
proof -
  define q where "q = dropWhile (\<lambda>c. c = slash) p"
  have q: "q = [] \<or> (\<exists>t. q = 0 # t)" using assms by (simp only: q_def)
  have c: "components p = (case q of [] \<Rightarrow> []
      | c # p \<Rightarrow> if c = 0 then []
          else takeWhile (\<lambda>c. c \<noteq> slash \<and> c \<noteq> 0) (c # p)
                 # components (dropWhile (\<lambda>c. c \<noteq> slash \<and> c \<noteq> 0) (c # p)))"
    unfolding q_def by (rule components.simps)
  show "components p = []" using q by (auto simp: c)
  have s: "strchr q slash = None" "strlen q = 0"
    using q by (auto simp: strlen_def slash_def)
  have sp: "p = replicate (length (takeWhile (\<lambda>c. c = slash) p)) slash @ q"
    unfolding q_def by (rule split_slashes)
  show "find_parse p = Done"
  proof (cases "length (takeWhile (\<lambda>c. c = slash) p)")
    case 0
    then have "p = q" using sp by simp
    then show ?thesis using find_parse_done(1) [OF s] by simp
  next
    case (Suc k)
    then have "p = replicate (Suc k) slash @ q" using sp by simp
    then show ?thesis using find_parse_replicate [of k q] find_parse_done(2) [OF s] by simp
  qed
qed

lemma path_shape_component:
  assumes "stops p" "dropWhile (\<lambda>c. c = slash) p = c # t" "c \<noteq> 0"
  defines "cmp \<equiv> takeWhile (\<lambda>c. c \<noteq> slash \<and> c \<noteq> 0) (c # t)"
    and "rest \<equiv> dropWhile (\<lambda>c. c \<noteq> slash \<and> c \<noteq> 0) (c # t)"
  shows "components p = cmp # components rest"
    and "find_parse p = (if 56 \<le> length cmp then TooLong
                         else Comp (cmp @ replicate (58 - length cmp) 0) rest)"
    and "stops rest" and "cmp \<noteq> []" and "plain cmp" and "length rest < length p"
proof -
  let ?q = "dropWhile (\<lambda>c. c = slash) p"
  have cs: "c \<noteq> slash" using hd_dropWhile [of "\<lambda>c. c = slash" p] assms(2) by auto
  show c1: "components p = cmp # components rest"
    using assms(2,3) by (subst components.simps) (simp add: cmp_def rest_def)
  show ne: "cmp \<noteq> []" using cs assms(3) by (simp add: cmp_def)
  show pl: "plain cmp"
    unfolding plain_def cmp_def list_all_iff using set_takeWhileD by fastforce
  show st: "stops rest"
  proof (cases rest)
    case Nil then show ?thesis by (simp add: stops_def)
  next
    case (Cons x xs)
    then have "\<not> (x \<noteq> slash \<and> x \<noteq> 0)"
      using hd_dropWhile [of "\<lambda>c. c \<noteq> slash \<and> c \<noteq> 0" "c # t"] unfolding rest_def by fastforce
    then show ?thesis using Cons by (auto simp: stops_def)
  qed
  have q: "?q = cmp @ rest" unfolding cmp_def rest_def assms(2) by simp
  have "p \<noteq> ?q"
  proof
    assume "p = ?q"
    then have "p = c # t" using assms(2) by simp
    then show False using assms(1) cs assms(3) by (simp add: stops_def)
  qed
  then obtain k where k: "length (takeWhile (\<lambda>c. c = slash) p) = Suc k"
    using split_slashes [of p] by (cases "length (takeWhile (\<lambda>c. c = slash) p)") auto
  then have p: "p = replicate (Suc k) slash @ cmp @ rest"
    using split_slashes [of p] q by simp
  show "find_parse p = (if 56 \<le> length cmp then TooLong
                         else Comp (cmp @ replicate (58 - length cmp) 0) rest)"
    using find_parse_replicate [of k "cmp @ rest"] find_parse_component [OF ne pl st] p by simp
  show "length rest < length p" using p ne by (subst p) simp
qed

lemma preads_file_entry_loop:
  "length (preads (snd (snd (snd (wfs_file_entry_loop img op cb n start i count entry data)))))
     \<le> length (preads img) + (n - i)"
proof (induction img op cb n start i count entry data rule: wfs_file_entry_loop.induct)
  case (1 img op cb n start i count entry data)
  show ?case
  proof (cases "i < n")
    case False
    then show ?thesis by (subst wfs_file_entry_loop.simps) simp
  next
    case True
    obtain bs img' where r: "pread img sizeof_entry (start + i * sizeof_entry) = (bs, img')"
      by (cases "pread img sizeof_entry (start + i * sizeof_entry)")
    have u: "length (preads img') = length (preads img) + 1"
      using r by (auto simp: pread_def)
    note IH = 1 [OF True refl r [symmetric] refl]
    show ?thesis
      using True r u IH
      by (subst wfs_file_entry_loop.simps)
         (auto simp: Let_def split: wfs_file_entry_op_t.splits)
  qed
qed

lemma preads_file_entry_operation:
  "wfs_file_entry_operation img parent op entry cb data = (r, e, d, img') \<Longrightarrow>
     length (preads img') \<le> length (preads img) + 16"
proof -
  assume a: "wfs_file_entry_operation img parent op entry cb data = (r, e, d, img')"
  have l: "length (preads img') \<le> length (preads img) + 16"
    if "wfs_file_entry_loop img op cb 16 start 0 0 entry data = (r, e, d, img')" for start
    using preads_file_entry_loop [of img op cb 16 start 0 0 entry data] that by simp
  show ?thesis
    using a l by (auto simp: wfs_file_entry_operation_def Let_def split: if_splits)
qed

lemma plain_name_first: "cmp \<noteq> [] \<Longrightarrow> plain cmp \<Longrightarrow> char_at (cmp @ zs) 0 \<noteq> 0"
  by (cases cmp) (auto simp: plain_def char_at_def)

lemma find_loop_long_component:
  "stops p \<Longrightarrow> list_ex (\<lambda>c. 56 \<le> length c) (components p) \<Longrightarrow>
     fst (wfs_find_entry_loop img p cur) = None"
proof (induction p arbitrary: img cur rule: length_induct)
  case (1 p)
  let ?q = "dropWhile (\<lambda>c. c = slash) p"
  from 1(3) have ne: "components p \<noteq> []" by auto
  have "\<not> (?q = [] \<or> (\<exists>t. ?q = 0 # t))"
    using path_shape_done(1) [of p] ne by blast
  then obtain c t where q: "?q = c # t" and c0: "c \<noteq> 0" by (cases ?q) auto
  define cmp where "cmp = takeWhile (\<lambda>c. c \<noteq> slash \<and> c \<noteq> 0) (c # t)"
  define rest where "rest = dropWhile (\<lambda>c. c \<noteq> slash \<and> c \<noteq> 0) (c # t)"
  note sh = path_shape_component [OF 1(2) q c0, folded cmp_def rest_def]
  show ?case
  proof (cases "56 \<le> length cmp")
    case True
    then show ?thesis using sh(2) by (subst find_loop_unfold) simp
  next
    case False
    then have ex: "list_ex (\<lambda>c. 56 \<le> length c) (components rest)"
      using 1(3) sh(1) by simp
    have IH: "\<And>img cur. fst (wfs_find_entry_loop img rest cur) = None"
      using 1(1) sh(6) sh(3) ex by blast
    show ?thesis
      using False sh(2) IH plain_name_first [OF sh(4,5)]
      by (subst find_loop_unfold) (simp add: case_prod_beta)
  qed
qed

lemma find_loop_preads:
  "stops p \<Longrightarrow>
     length (preads (snd (wfs_find_entry_loop img p cur)))
       \<le> length (preads img) + 16 * length (takeWhile (\<lambda>c. length c < 56) (components p))"
proof (induction p arbitrary: img cur rule: length_induct)
  case (1 p)
  let ?q = "dropWhile (\<lambda>c. c = slash) p"
  show ?case
  proof (cases "?q = [] \<or> (\<exists>t. ?q = 0 # t)")
    case True
    then show ?thesis using path_shape_done(2) [OF True] by (subst find_loop_unfold) simp
  next
    case False
    then obtain c t where q: "?q = c # t" and c0: "c \<noteq> 0" by (cases ?q) auto
    define cmp where "cmp = takeWhile (\<lambda>c. c \<noteq> slash \<and> c \<noteq> 0) (c # t)"
    define rest where "rest = dropWhile (\<lambda>c. c \<noteq> slash \<and> c \<noteq> 0) (c # t)"
    note sh = path_shape_component [OF 1(2) q c0, folded cmp_def rest_def]
    show ?thesis
    proof (cases "56 \<le> length cmp")
      case True
      then show ?thesis using sh(2) by (subst find_loop_unfold) simp
    next
      case short: False
      let ?e = "zero_entry\<lparr>filename := cmp @ replicate (58 - length cmp) 0\<rparr>"
      obtain r cur' d img' where op:
        "wfs_file_entry_operation img cur WFS_FILE_ENTRY_OP_FIND ?e (\<lambda>_ d. d) () = (r, cur', d, img')"
        by (metis prod_cases4)
      have l: "length (preads img') \<le> length (preads img) + 16"
        using preads_file_entry_operation [OF op] .
      have IH: "length (preads (snd (wfs_find_entry_loop img' rest cur')))
          \<le> length (preads img') + 16 * length (takeWhile (\<lambda>c. length c < 56) (components rest))"
        using 1(1) sh(6) sh(3) by blast
      have eq: "wfs_find_entry_loop img p cur =
          (if r \<le> 0 then (None, img') else wfs_find_entry_loop img' rest cur')"
        using short sh(2) plain_name_first [OF sh(4,5)] op
        by (subst find_loop_unfold) simp
      show ?thesis
        using eq l IH short sh(1) by (cases "r \<le> 0") auto
    qed
  qed
qed

lemma byte_diff_0: "int (unat (x::byte)) - int (unat (y::byte)) = 0 \<longleftrightarrow> x = y"
proof -
  have "int (unat x) - int (unat y) = 0 \<longleftrightarrow> unat x = unat y" by arith
  then show ?thesis by (simp only: word_unat_eq_iff)
qed

lemma strncmp_Suc:
  "strncmp a b (Suc n) = 0 \<longleftrightarrow>
     (char_at a 0 = char_at b 0 \<and> (char_at a 0 = 0 \<or> strncmp (tl a) (tl b) n = 0))"
proof (cases "char_at a 0 = char_at b 0")
  case True
  then show ?thesis by (simp add: Let_def)
next
  case False
  then have "int (unat (char_at a 0)) - int (unat (char_at b 0)) \<noteq> 0"
    by (simp only: byte_diff_0 not_False_eq_True)
  then show ?thesis using False by (simp add: Let_def)
qed

lemma strncmp_eq_0_iff: "strncmp a b n = 0 \<longleftrightarrow> cstr (take n a) = cstr (take n b)"
proof (induction n arbitrary: a b)
  case 0
  show ?case by simp
next
  case (Suc n)
  show ?case
    unfolding strncmp_Suc
  proof (cases a; cases b)
    fix x xs y ys assume "a = x # xs" "b = y # ys"
    then show "(char_at a 0 = char_at b 0 \<and> (char_at a 0 = 0 \<or> strncmp (tl a) (tl b) n = 0))
        = (cstr (take (Suc n) a) = cstr (take (Suc n) b))"
      using Suc [of xs ys] by (auto simp: char_at_def cstr_def)
  qed (auto simp: char_at_def cstr_def)
qed

lemma strnlen_cstr: "strnlen s n = length (cstr (take n s))"
proof -
  have "length (takeWhile P (take n s)) = min (length (takeWhile P s)) n" for P :: "byte \<Rightarrow> bool"
  proof (induction s arbitrary: n)
    case Nil show ?case by simp
  next
    case (Cons x xs) show ?case using Cons [of "n - 1"] by (cases n) auto
  qed
  then show ?thesis by (simp add: strnlen_def strlen_def cstr_def)
qed

lemma file_entry_loop_find_result_aux:
  "op = WFS_FILE_ENTRY_OP_FIND \<Longrightarrow>
   wfs_file_entry_loop img op cb n start i count entry data = (r, e, d, img') \<Longrightarrow>
     (r = count \<and> e = entry) \<or>
     (r = 1 \<and> strncmp (filename e) (filename entry) WFS_FILENAME_SIZE = 0)"
proof (induction img op cb n start i count entry data rule: wfs_file_entry_loop.induct)
  case (1 img op cb n start i count entry data)
  show ?case
  proof (cases "i < n")
    case False
    then show ?thesis using "1.prems" by (subst (asm) wfs_file_entry_loop.simps) simp
  next
    case True
    obtain bs img1 where p: "pread img sizeof_entry (start + i * sizeof_entry) = (bs, img1)"
      by (cases "pread img sizeof_entry (start + i * sizeof_entry)")
    note IH1 = "1.IH"(1) [OF True refl p [symmetric] refl "1.prems"(1) _ "1.prems"(1)]
    note IH2 = "1.IH"(2) [OF True refl p [symmetric] refl "1.prems"(1) _ _ "1.prems"(1)]
    show ?thesis
      using "1.prems" True p IH1 IH2
      by (subst (asm) wfs_file_entry_loop.simps) (auto simp: Let_def split: if_splits)
  qed
qed

lemma file_entry_operation_find_result:
  "wfs_file_entry_operation img parent WFS_FILE_ENTRY_OP_FIND entry cb data = (r, e, d, img') \<Longrightarrow>
     0 < r \<Longrightarrow> strncmp (filename e) (filename entry) WFS_FILENAME_SIZE = 0"
  using file_entry_loop_find_result_aux [OF refl, of img cb 16 _ 0 0 entry data r e d img']
  by (auto simp: wfs_file_entry_operation_def Let_def EINVAL_def split: if_splits)

lemma takeWhile_stop_le:
  assumes "i < length xs" "\<not> P (xs ! i)"
  shows "length (takeWhile P xs) \<le> i"
proof (rule ccontr)
  assume "\<not> length (takeWhile P xs) \<le> i"
  then have l: "i < length (takeWhile P xs)" by simp
  then have "takeWhile P xs ! i = xs ! i" by (rule takeWhile_nth)
  moreover have "takeWhile P xs ! i \<in> set (takeWhile P xs)" using l by (rule nth_mem)
  ultimately show False using assms(2) set_takeWhileD by metis
qed

lemma strncpy_length:
  "n \<le> length dst \<Longrightarrow> length (strncpy dst src n) = length dst"
  by (simp add: strncpy_def)

lemma find_parse_name_short:
  assumes "find_parse path = Comp name rest"
  shows "strnlen name WFS_FILENAME_SIZE < 56"
proof -
  from assms obtain path2 e where
    n: "name = (strncpy (filename zero_entry) path2 (e + 1))[e := 0]" and e: "e < 56"
    by (auto simp: find_parse_def Let_def WFS_FILENAME_SIZE_def split: option.splits if_splits)
  have len: "length name = 58"
    using e by (simp add: n strncpy_length zero_entry_def WFS_FILENAME_SIZE_def)
  have "name ! e = 0" using len e by (simp add: n)
  then have "length (takeWhile (\<lambda>c. c \<noteq> 0) name) \<le> e"
    using takeWhile_stop_le [of e name "\<lambda>c. c \<noteq> 0"] len e by simp
  then show ?thesis using e by (simp add: strnlen_def strlen_def)
qed

lemma find_loop_name_short:
  "strnlen (filename cur) WFS_FILENAME_SIZE < 56 \<Longrightarrow>
   fst (wfs_find_entry_loop img p cur) = Some e \<Longrightarrow>
   strnlen (filename e) WFS_FILENAME_SIZE < 56"
proof (induction p arbitrary: img cur rule: length_induct)
  case (1 p)
  show ?case
  proof (cases "find_parse p")
    case Done
    then show ?thesis using 1(2,3) by (subst (asm) find_loop_unfold) simp
  next
    case TooLong
    then show ?thesis using 1(3) by (subst (asm) find_loop_unfold) simp
  next
    case (Comp name rest)
    have IH: "\<And>img cur. strnlen (filename cur) WFS_FILENAME_SIZE < 56 \<Longrightarrow>
        fst (wfs_find_entry_loop img rest cur) = Some e \<Longrightarrow>
        strnlen (filename e) WFS_FILENAME_SIZE < 56"
      using 1(1) find_parse_shorter [OF Comp] by blast
    have ns: "strnlen name WFS_FILENAME_SIZE < 56" using find_parse_name_short [OF Comp] .
    show ?thesis
    proof (cases "char_at name 0 \<noteq> 0")
      case False
      then have "wfs_find_entry_loop img p cur = wfs_find_entry_loop img rest (zero_entry\<lparr>filename := name\<rparr>)"
        using Comp by (subst find_loop_unfold) simp
      then show ?thesis using IH [of "zero_entry\<lparr>filename := name\<rparr>" img] ns 1(3) by simp
    next
      case True
      obtain r cur' d img' where op:
        "wfs_file_entry_operation img cur WFS_FILE_ENTRY_OP_FIND
           (zero_entry\<lparr>filename := name\<rparr>) (\<lambda>_ d. d) () = (r, cur', d, img')"
        by (metis prod_cases4)
      have eq: "wfs_find_entry_loop img p cur =
          (if r \<le> 0 then (None, img') else wfs_find_entry_loop img' rest cur')"
        using Comp True op by (subst find_loop_unfold) simp
      show ?thesis
      proof (cases "r \<le> 0")
        case True
        then show ?thesis using eq 1(3) by simp
      next
        case False
        then have "strncmp (filename cur') (filename (zero_entry\<lparr>filename := name\<rparr>)) WFS_FILENAME_SIZE = 0"
          using file_entry_operation_find_result [OF op] by simp
        then have "strnlen (filename cur') WFS_FILENAME_SIZE = strnlen name WFS_FILENAME_SIZE"
          by (simp add: strncmp_eq_0_iff strnlen_cstr)
        then show ?thesis using IH [of cur' img'] ns eq False 1(3) by simp
      qed
    qed
  qed
qed

lemma find_entry_name_short:
  "fst (wfs_find_entry img path) = Some e \<Longrightarrow> strnlen (filename e) WFS_FILENAME_SIZE < 56"
proof -
  have z: "strnlen (filename zero_entry) WFS_FILENAME_SIZE < 56"
    by (simp add: zero_entry_def strnlen_def strlen_def WFS_FILENAME_SIZE_def)
  show "fst (wfs_find_entry img path) = Some e \<Longrightarrow> strnlen (filename e) WFS_FILENAME_SIZE < 56"
    using find_loop_name_short [OF z, of img path e]
    by (auto simp: wfs_find_entry_def split: if_splits)
qed

lemma stops_path: "strlen path \<noteq> 0 \<Longrightarrow> char_at path 0 = slash \<Longrightarrow> stops path"
  by (cases path) (auto simp: stops_def char_at_def strlen_def)

lemma find_entry_long_component:
  "list_ex (\<lambda>c. 56 \<le> length c) (components path) \<Longrightarrow> fst (wfs_find_entry img path) = None"
  using find_loop_long_component [OF stops_path, of path img zero_entry]
  by (auto simp: wfs_find_entry_def)

lemma find_entry_preads:
  "length (preads (snd (wfs_find_entry img path)))
     \<le> length (preads img) + 16 * length (takeWhile (\<lambda>c. length c < 56) (components path))"
  using find_loop_preads [OF stops_path, of path img zero_entry]
  by (auto simp: wfs_find_entry_def)

lemma slot_preads [simp]: "slot (img\<lparr>preads := l\<rparr>) off = slot img off"
  by (simp add: slot_def pread_def image_size_def)

lemma file_entry_loop_all_empty_exact:
  assumes "list_all (\<lambda>j. contents img (start + j * sizeof_entry) = 0) [i..<n]"
  shows "wfs_file_entry_loop img op cb n start i count entry data
           = (count, entry, data, img\<lparr>preads := preads img @ slot_reads start i n\<rparr>)"
  using assms
proof (induction "n - i" arbitrary: i img)
  case 0
  then show ?case by (simp add: file_entry_loop_end slot_reads_def)
next
  case (Suc k)
  then have lt: "i < n" by simp
  let ?img = "snd (pread img sizeof_entry (start + i * sizeof_entry))"
  have im: "?img = img\<lparr>preads := preads img @ [(start + i * sizeof_entry, sizeof_entry)]\<rparr>"
    by (simp add: pread_def)
  have e: "contents img (start + i * sizeof_entry) = 0"
    using Suc.prems lt by (simp add: upt_conv_Cons)
  have rest: "list_all (\<lambda>j. contents ?img (start + j * sizeof_entry) = 0) [Suc i..<n]"
    using Suc.prems lt by (simp add: upt_conv_Cons im)
  have "k = n - Suc i" using Suc.hyps by simp
  note IH = Suc.hyps(1) [OF this rest]
  show ?case
    using file_entry_loop_skip [OF lt empty_slot [OF e], of op cb count entry data] IH lt
    by (simp add: im slot_reads_def upt_conv_Cons)
qed

lemma file_entry_loop_find_at_exact:
  assumes "list_all (\<lambda>j. contents img (start + j * sizeof_entry) = 0) [i..<k]"
    and "i \<le> k" "k < n"
    and "\<not> wfs_file_entry_is_empty (slot img (start + k * sizeof_entry))"
    and "strncmp (filename (slot img (start + k * sizeof_entry))) (filename entry) WFS_FILENAME_SIZE = 0"
  shows "wfs_file_entry_loop img WFS_FILE_ENTRY_OP_FIND cb n start i count entry data
           = (1, slot img (start + k * sizeof_entry), data,
              img\<lparr>preads := preads img @ slot_reads start i (Suc k)\<rparr>)"
  using assms
proof (induction "k - i" arbitrary: i img)
  case 0
  then have "i = k" by simp
  then show ?case
    using file_entry_loop_find_hit [of k n img start entry cb count data] 0
    by (simp add: pread_def slot_reads_def)
next
  case (Suc m)
  then have lt: "i < k" by simp
  then have ltn: "i < n" using Suc.prems by simp
  let ?img = "snd (pread img sizeof_entry (start + i * sizeof_entry))"
  have im: "?img = img\<lparr>preads := preads img @ [(start + i * sizeof_entry, sizeof_entry)]\<rparr>"
    by (simp add: pread_def)
  have e: "contents img (start + i * sizeof_entry) = 0"
    using Suc.prems lt by (simp add: upt_conv_Cons)
  have rest: "list_all (\<lambda>j. contents ?img (start + j * sizeof_entry) = 0) [Suc i..<k]"
    using Suc.prems lt by (simp add: upt_conv_Cons im)
  have "m = k - Suc i" using Suc.hyps by simp
  note IH = Suc.hyps(1) [OF this rest]
  have "i < Suc k" using lt by simp
  then show ?case
    using file_entry_loop_skip [OF ltn empty_slot [OF e], of WFS_FILE_ENTRY_OP_FIND cb count entry data]
      IH Suc.prems lt
    by (simp add: im slot_reads_def upt_conv_Cons [OF lt])
qed

lemma find_loop_end: "wfs_find_entry_loop img [] cur = (Some cur, img)"
  by (subst find_loop_unfold) (simp add: find_parse_def slash_def)

lemma file_entry_operation_unfold:
  "wfs_file_entry_operation img parent op entry cb data =
     (if op = WFS_FILE_ENTRY_OP_FIND \<and> char_at (filename entry) 0 = 0
      then (- EINVAL, entry, data, img)
      else wfs_file_entry_loop img op cb 16 (entrystart_of parent) 0 0 entry data)"
  by (simp add: wfs_file_entry_operation_def Let_def entrystart_of_def)

lemma find_loop_step_hit:
  assumes "cmp \<noteq> []" "plain cmp" "stops rest" "length cmp < 56"
    and "list_all (\<lambda>j. contents img (entrystart_of cur + j * sizeof_entry) = 0) [0..<k]"
    and "k < 16"
    and "\<not> wfs_file_entry_is_empty (slot img (entrystart_of cur + k * sizeof_entry))"
    and "strncmp (filename (slot img (entrystart_of cur + k * sizeof_entry)))
           (cmp @ replicate (58 - length cmp) 0) WFS_FILENAME_SIZE = 0"
  shows "wfs_find_entry_loop img (slash # cmp @ rest) cur =
         wfs_find_entry_loop (img\<lparr>preads := preads img @ slot_reads (entrystart_of cur) 0 (Suc k)\<rparr>)
           rest (slot img (entrystart_of cur + k * sizeof_entry))"
proof -
  have fp: "find_parse (slash # cmp @ rest) = Comp (cmp @ replicate (58 - length cmp) 0) rest"
    using find_parse_component [OF assms(1-3)] assms(4) by simp
  have op: "wfs_file_entry_operation img cur WFS_FILE_ENTRY_OP_FIND
             (zero_entry\<lparr>filename := cmp @ replicate (58 - length cmp) 0\<rparr>) (\<lambda>_ d. d) ()
        = (1, slot img (entrystart_of cur + k * sizeof_entry), (),
           img\<lparr>preads := preads img @ slot_reads (entrystart_of cur) 0 (Suc k)\<rparr>)"
    using file_entry_loop_find_at_exact [OF assms(5) _ assms(6),
        of "zero_entry\<lparr>filename := cmp @ replicate (58 - length cmp) 0\<rparr>" "\<lambda>_ d. d" 0 "()"]
      assms(7,8) plain_name_first [OF assms(1,2)]
    by (simp add: file_entry_operation_unfold)
  show ?thesis
    using fp op plain_name_first [OF assms(1,2)]
    by (subst find_loop_unfold) simp
qed

lemma find_loop_step_miss:
  assumes "cmp \<noteq> []" "plain cmp" "stops rest" "length cmp < 56"
    and "list_all (\<lambda>j. contents img (entrystart_of cur + j * sizeof_entry) = 0) [0..<16]"
  shows "wfs_find_entry_loop img (slash # cmp @ rest) cur =
         (None, img\<lparr>preads := preads img @ slot_reads (entrystart_of cur) 0 16\<rparr>)"
proof -
  have fp: "find_parse (slash # cmp @ rest) = Comp (cmp @ replicate (58 - length cmp) 0) rest"
    using find_parse_component [OF assms(1-3)] assms(4) by simp
  have op: "wfs_file_entry_operation img cur WFS_FILE_ENTRY_OP_FIND
             (zero_entry\<lparr>filename := cmp @ replicate (58 - length cmp) 0\<rparr>) (\<lambda>_ d. d) ()
        = (0, zero_entry\<lparr>filename := cmp @ replicate (58 - length cmp) 0\<rparr>, (),
           img\<lparr>preads := preads img @ slot_reads (entrystart_of cur) 0 16\<rparr>)"
    using file_entry_loop_all_empty_exact [OF assms(5)] plain_name_first [OF assms(1,2)]
    by (simp add: file_entry_operation_unfold)
  show ?thesis
    using fp op plain_name_first [OF assms(1,2)]
    by (subst find_loop_unfold) simp
qed

lemma entrystart_of_zero [simp]: "entrystart_of zero_entry = 16"
  by (simp add: entrystart_of_def zero_entry_def wfs_file_entry_is_empty_def char_at_def
      WFS_FILENAME_SIZE_def WFS_ENTRIES_START_def WFS_MAGIC_SIZE_def)

lemmas layout_defs = WFS_MAGIC_SIZE_def WFS_FILENAME_SIZE_def WFS_BLOCK_SIZE_def WFS_N_FILES_def
  WFS_N_BLOCKS_def sizeof_entry_def WFS_ENTRIES_START_def WFS_BLOCK_TABLE_START_def
  WFS_BLOCK_TABLE_SIZE_def WFS_DATA_START_def wfs_get_size_def image_size_def

lemmas slot_eval = slot_def entry_of_bytes_def pread_def buffer_def le16_def le32_def char_at_def
  image_of_def layout_defs

lemma replicate_num: "replicate (numeral k) x = x # replicate (pred_numeral k) x"
  by (simp add: numeral_eq_Suc)

lemma preads_image_of [simp]: "preads (image_of al) = []"
  by (simp add: image_of_def)

lemma preads_one_file: "preads image_one_file = []"
  by (simp add: image_one_file_def)

lemma slot_f: "slot image_one_file 16 = entry_f"
  by (simp add: slot_eval image_one_file_def entry_f_def replicate_num)

lemma find_f:
  "wfs_find_entry image_one_file [47, 102]
     = (Some entry_f, image_one_file\<lparr>preads := [(16, 64)]\<rparr>)"
proof -
  have "wfs_find_entry_loop image_one_file (slash # [102] @ []) zero_entry =
        wfs_find_entry_loop
          (image_one_file\<lparr>preads := preads image_one_file @ slot_reads (entrystart_of zero_entry) 0 (Suc 0)\<rparr>)
          [] (slot image_one_file (entrystart_of zero_entry + 0 * sizeof_entry))"
    by (rule find_loop_step_hit)
       (simp_all add: plain_def stops_def slash_def slot_f entry_f_def wfs_file_entry_is_empty_def
          char_at_def WFS_BLOCK_FREE_def strncmp_eq_0_iff cstr_def WFS_FILENAME_SIZE_def)
  then show ?thesis
    by (simp add: wfs_find_entry_def strlen_def char_at_def slash_def find_loop_end slot_f
        slot_reads_def sizeof_entry_def preads_one_file)
qed

lemma to_int32_add: "to_int32 (to_int32 a + b) = to_int32 (a + b)"
proof -
  have "(to_int32 a + b + 2147483648) mod 4294967296 = (a + b + 2147483648) mod 4294967296"
  proof -
    have "to_int32 a + b + 2147483648 = (a + 2147483648) mod 4294967296 + b"
      by (simp add: to_int32_def)
    also have "\<dots> mod 4294967296 = (a + 2147483648 + b) mod 4294967296"
      by (rule mod_add_left_eq)
    finally show ?thesis by (simp add: ac_simps)
  qed
  then show ?thesis by (simp add: to_int32_def)
qed

lemma to_int32_small: "0 \<le> a \<Longrightarrow> a < 2147483648 \<Longrightarrow> to_int32 a = a"
  by (simp add: to_int32_def)

lemma to_int32_wrapped:
  assumes "0 < d" "d \<le> 268435456"
  shows "to_int32 (18446744073709551616 - d) < 0"
proof -
  have "(18446744073709551616 - d + 2147483648) mod 4294967296
        = (4294967296 * 4294967296 + (2147483648 - d)) mod 4294967296"
    by (simp add: algebra_simps)
  also have "\<dots> = (2147483648 - d) mod 4294967296"
    by (rule mod_mult_self4)
  also have "\<dots> = 2147483648 - d" using assms by simp
  finally show ?thesis using assms by (simp add: to_int32_def)
qed

lemma read_loop_result:
  "wfs_read_loop img sz block bp rd buf = (r, b, img') \<Longrightarrow>
     r = - EIO
     \<or> (r = rd \<and> b = buf \<and> (sz = 0 \<or> block = WFS_BLOCK_FREE \<or> WFS_BLOCK_EOF < block))
     \<or> (r = to_int32 (rd + int sz) \<and> length b = length buf + sz)"
proof (induction img sz block bp rd buf rule: wfs_read_loop.induct)
  case (1 img sz block bp rd buf)
  let ?c = "sz > 0 \<and> block > WFS_BLOCK_FREE \<and> block \<le> WFS_BLOCK_EOF"
  show ?case
  proof (cases ?c)
    case False
    then have "wfs_read_loop img sz block bp rd buf = (rd, buf, img)" by (rule read_loop_stop)
    then show ?thesis using "1.prems" False by (auto simp: WFS_BLOCK_FREE_def)
  next
    case True
    define tr where "tr = (if bp = 0 then WFS_BLOCK_SIZE else to_uint16 (int WFS_BLOCK_SIZE - int bp))"
    define tr2 where "tr2 = (if tr > sz then sz else tr)"
    have tr2: "tr2 = read_request sz bp" by (simp add: tr2_def tr_def read_request_def Let_def)
    obtain bs img1 where p: "pread img tr2 (wfs_get_block_offset (int block - 1) + bp) = (bs, img1)"
      by (cases "pread img tr2 (wfs_get_block_offset (int block - 1) + bp)")
    have le: "length bs \<le> sz"
      using pread_length [of img tr2 "wfs_get_block_offset (int block - 1) + bp"] p
        read_request_le [of sz bp] tr2 by simp
    obtain nb img2 where n: "wfs_get_next_block img1 block = (nb, img2)"
      by (cases "wfs_get_next_block img1 block")
    define sz' where "sz' = sz - length bs"
    define rd' where "rd' = to_int32 (rd + int (length bs))"
    have eq: "wfs_read_loop img sz block bp rd buf =
        (if sz' > 0 then
           (if nb = WFS_BLOCK_FREE \<or> nb \<ge> WFS_BLOCK_EOF then (- EIO, buf @ bs, img2)
            else wfs_read_loop img2 sz' nb 0 rd' (buf @ bs))
         else wfs_read_loop img1 sz' block bp rd' (buf @ bs))"
      using read_loop_step [OF _ _ _ p [unfolded tr2] n, of rd buf] True
      by (simp add: sz'_def rd'_def)
    have sum: "to_int32 (rd' + int sz') = to_int32 (rd + int sz)"
      using le by (simp add: rd'_def sz'_def to_int32_add)
    show ?thesis
    proof (cases "sz' > 0")
      case False
      then have z: "sz' = 0" by simp
      then have "wfs_read_loop img1 sz' block bp rd' (buf @ bs) = (rd', buf @ bs, img1)"
        by (simp add: read_loop_stop)
      then have "r = rd'" "b = buf @ bs" using eq z "1.prems" by simp_all
      moreover have "length bs = sz" using z le by (simp add: sz'_def)
      ultimately show ?thesis by (simp add: rd'_def)
    next
      case pos: True
      show ?thesis
      proof (cases "nb = WFS_BLOCK_FREE \<or> nb \<ge> WFS_BLOCK_EOF")
        case True
        then show ?thesis using eq pos "1.prems" by simp
      next
        case False
        have call: "wfs_read_loop img2 sz' nb 0 rd' (buf @ bs) = (r, b, img')"
          using eq pos False "1.prems" by simp
        note IH = "1.IH"(1) [OF \<open>?c\<close> refl tr_def tr2_def refl p [symmetric] refl sz'_def rd'_def refl pos
                         refl n [symmetric] refl False call]
        then show ?thesis
          using pos False sum le by (auto simp: sz'_def WFS_BLOCK_FREE_def)
      qed
    qed
  qed
qed

lemma get_size_bound: "unat (wfs_file_entry_get_size e) < 268435456"
proof -
  have "unat (size_f e AND 0x0fffffff) \<le> unat (0x0fffffff :: 32 word)"
    by (rule word_and_le1 [THEN word_le_nat_alt [THEN iffD1]])
  then show ?thesis by (simp add: wfs_file_entry_get_size_def WFS_SIZE_MASK_def)
qed

lemma read_result:
  assumes "wfs_find_entry img path = (Some entry, img1)"
    and "0 \<le> fst (wfs_read img path size' offset)"
  shows "fst (wfs_read img path size' offset)
           \<le> int (unat (wfs_file_entry_get_size entry)) - int (unat offset)
         \<and> int (length (fst (snd (wfs_read img path size' offset))))
             = fst (wfs_read img path size' offset)"
proof -
  let ?cs = "unat (wfs_file_entry_get_size entry)"
  have cs: "?cs < 268435456" by (rule get_size_bound)
  have off: "unat offset \<le> ?cs"
    using assms by (auto simp: wfs_read_def Let_def EINVAL_def split: if_splits)
  have off': "int (unat offset) \<le> int ?cs" using off by (simp only: of_nat_le_iff)
  obtain block bp img2 where g: "wfs_get_current_block img1 entry (unat offset) 0 = (block, bp, img2)"
    by (metis prod_cases3)
  have blk: "block < WFS_BLOCK_EOF"
    using assms off g by (auto simp: wfs_read_def Let_def EIO_def split: if_splits)
  define sz where "sz = (if unat (offset + size') > ?cs then ?cs - unat offset else unat size')"
  obtain r b img3 where l: "wfs_read_loop img2 sz block bp 0 [] = (r, b, img3)"
    by (metis prod_cases3)
  have rd: "wfs_read img path size' offset = (r, b, img3)"
    using assms(1) off g blk l by (simp add: wfs_read_def Let_def sz_def)
  have r0: "0 \<le> r" using assms(2) rd by simp
  from read_loop_result [OF l] r0
  consider "r = 0" "b = []" | "r = to_int32 (int sz)" "length b = sz"
    by (auto simp: EIO_def)
  then have "r \<le> int ?cs - int (unat offset) \<and> int (length b) = r"
  proof cases
    case 1
    then show ?thesis using off' by simp
  next
    case 2
    show ?thesis
    proof (cases "unat (offset + size') > ?cs")
      case True
      then have "sz = ?cs - unat offset" by (simp add: sz_def)
      then have "int sz = int ?cs - int (unat offset)" using off by (simp only: of_nat_diff)
      moreover have "int sz < 2147483648" using \<open>sz = ?cs - unat offset\<close> cs by simp
      ultimately show ?thesis using 2 by (simp add: to_int32_small)
    next
      case False
      then have s: "sz = unat size'" by (simp add: sz_def)
      show ?thesis
      proof (cases "unat offset + unat size' < 2 ^ 64")
        case True
        then have "unat (offset + size') = unat offset + unat size'"
          by (simp add: unat_add_lem [THEN iffD1])
        then have le: "sz \<le> ?cs - unat offset" using False s by simp
        then have "int sz \<le> int (?cs - unat offset)" by (simp only: of_nat_le_iff)
        then have "int sz \<le> int ?cs - int (unat offset)" using off by (simp only: of_nat_diff)
        moreover have "int sz < 2147483648" using le cs by simp
        ultimately show ?thesis using 2 by (simp add: to_int32_small)
      next
        case wrap: False
        define n where "n = unat size'"
        define m where "m = unat offset"
        have "n < 18446744073709551616" using unsigned_less [of size', where ?'a = nat] by (simp add: n_def)
        moreover have "\<not> m + n < 18446744073709551616" using wrap by (simp add: n_def m_def)
        moreover have "m < 268435456" using off cs by (simp add: m_def)
        moreover define d where "d = 18446744073709551616 - int n"
        ultimately have d: "0 < d" "d \<le> 268435456" by simp_all
        have "int sz = 18446744073709551616 - d" by (simp add: d_def s n_def)
        then have "r < 0" using to_int32_wrapped [OF d] 2 by simp
        then show ?thesis using r0 by simp
      qed
    qed
  qed
  then show ?thesis using rd by simp
qed

section \<open>C9: the callbacks never write to the image\<close>

text \<open>
  C9.  Every operation of the callback table (getattr, readdir, open, create, read, write,
  mkdir, rmdir) leaves the backing image byte for byte unchanged: after any sequence of
  requests served through \<open>wfs_oper\<close> the image holds the bytes and has the length it
  had before.  Only the log of reads grows.
\<close>

theorem fuse_main_image_unchanged:
  "contents (fuse_main img rs) = contents img \<and> extra (fuse_main img rs) = extra img"
  using unchanged_fuse_main [of img rs] by (simp add: unchanged_def)

section \<open>Evaluation on the example image\<close>

lemma block_table_read_one_file:
  "wfs_block_table_read (image_one_file\<lparr>preads := l\<rparr>) 0
     = (WFS_BLOCK_EOF, image_one_file\<lparr>preads := l @ [(4112, 2)]\<rparr>)"
  by (simp add: wfs_block_table_read_def pread_def buffer_def le16_def char_at_def layout_defs
      image_one_file_def image_of_def WFS_BLOCK_EOF_def Let_def)

lemma get_size_f: "unat (wfs_file_entry_get_size entry_f) = 512"
  by (simp add: wfs_file_entry_get_size_def entry_f_def WFS_SIZE_MASK_def)

lemma read_f_511:
  "fst (wfs_read image_one_file [47, 102] 10 511) = 1"
proof -
  let ?img = "image_one_file\<lparr>preads := [(16, 64)]\<rparr>"
  have g: "wfs_get_current_block ?img entry_f 511 0 = (1, 511, ?img)"
    by (subst wfs_get_current_block_def, subst wfs_get_current_block_loop.simps)
       (simp add: entry_f_def WFS_BLOCK_EOF_def WFS_BLOCK_SIZE_def to_uint16_def Let_def)
  have p: "pread ?img (read_request 1 511) (wfs_get_block_offset (int 1 - 1) + 511)
        = ([0], image_one_file\<lparr>preads := [(16, 64), (37391, 1)]\<rparr>)"
    by (simp add: read_request_def pread_def wfs_get_block_offset_def to_uint16_def layout_defs
        image_one_file_def image_of_def Let_def)
  obtain nb img2 where n: "wfs_get_next_block (image_one_file\<lparr>preads := [(16, 64), (37391, 1)]\<rparr>) 1 = (nb, img2)"
    by (metis surj_pair)
  have l: "wfs_read_loop ?img 1 1 511 0 [] = (1, [0], image_one_file\<lparr>preads := [(16, 64), (37391, 1)]\<rparr>)"
    using read_loop_step [OF _ _ _ p n, of 0 "[]"]
    by (simp add: WFS_BLOCK_FREE_def WFS_BLOCK_EOF_def read_loop_stop to_int32_def)
  show ?thesis
    using l by (simp add: find_f get_size_f wfs_read_def g Let_def WFS_BLOCK_EOF_def)
qed

section \<open>C8: the next-block lookup\<close>

lemma read_loop_block_0: "wfs_read_loop img sz 0 bp rd buf = (rd, buf, img)"
  by (rule read_loop_stop) (simp add: WFS_BLOCK_FREE_def)





section \<open>C4: write\<close>

text \<open>
  C4.  The claim: a write call resolves the path and writes, updating the size field, and
  fails only with not-found or capacity-exceeded.  The code: \<open>wfs_write\<close> returns
  \<open>-ENOSYS\<close> and does nothing else, although the comment before \<open>wfs_create\<close> says that
  modification of existing files is supported.  Writing one byte at offset 0 to the
  existing regular file \<open>/f\<close> fails with \<open>-ENOSYS\<close> and leaves the image as it was.
\<close>

theorem write_to_existing_file_fails:
  "fst (wfs_find_entry image_one_file [47, 102]) = Some entry_f
   \<and> wfs_file_entry_is_directory entry_f = False
   \<and> unat (wfs_file_entry_get_size entry_f) = 512
   \<and> wfs_write image_one_file [47, 102] [65] 1 0 = (- ENOSYS, image_one_file)
   \<and> - ENOSYS \<noteq> - ENOENT \<and> - ENOSYS < 0"
proof -
  have "wfs_file_entry_is_directory entry_f = False"
    by (simp add: wfs_file_entry_is_directory_def entry_f_def WFS_SIZE_IS_DIRECTORY_def)
  then show ?thesis
    by (simp add: find_f get_size_f wfs_write_def ENOSYS_def ENOENT_def)
qed

section \<open>C5: reading at the end of a file\<close>

text \<open>
  C5.  The claim: a read at an offset equal to the recorded size returns zero bytes, also
  when the size is a multiple of 512.  The code on the file \<open>/f\<close> of 512 bytes with a
  chain of one block: \<open>wfs_get_current_block\<close> steps from block 1 to its successor,
  which is the end of the chain, and \<open>wfs_read\<close> returns \<open>-EIO\<close>.
\<close>

theorem read_at_size_512_fails:
  "fst (wfs_find_entry image_one_file [47, 102]) = Some entry_f
   \<and> unat (wfs_file_entry_get_size entry_f) = 512
   \<and> fst (wfs_get_next_block image_one_file 1) = WFS_BLOCK_EOF
   \<and> fst (wfs_read image_one_file [47, 102] 10 512) = - EIO"
proof -
  have g: "wfs_get_current_block (image_one_file\<lparr>preads := [(16, 64)]\<rparr>) entry_f 512 0
        = (WFS_BLOCK_EOF, 0, image_one_file\<lparr>preads := [(16, 64), (4112, 2)]\<rparr>)"
    by (subst wfs_get_current_block_def, subst wfs_get_current_block_loop.simps)
       (simp add: entry_f_def WFS_BLOCK_EOF_def WFS_BLOCK_SIZE_def to_uint16_def Let_def
          block_table_read_one_file [unfolded WFS_BLOCK_EOF_def])
  have n: "fst (wfs_get_next_block image_one_file 1) = WFS_BLOCK_EOF"
    using block_table_read_one_file [of "[]"]
    by (simp add: wfs_get_next_block_def WFS_BLOCK_EOF_def WFS_N_BLOCKS_def to_uint16_def
        image_one_file_def image_of_def)
  show ?thesis
    using n by (simp add: find_f get_size_f wfs_read_def g Let_def)
qed

section \<open>C6: a read never extends past the recorded size\<close>

text \<open>
  C6.  For every successful read (the returned \<open>int\<close> is not negative) of a path that
  resolves to \<open>entry\<close>, the returned count is at most the recorded size minus the
  offset, and it is the number of bytes delivered.  This holds for every \<open>size_t\<close>
  length, also where \<open>offset + size\<close> wraps.
\<close>

theorem read_never_past_size:
  assumes "fst (wfs_find_entry img path) = Some entry"
    and "0 \<le> fst (wfs_read img path size' offset)"
  shows "fst (wfs_read img path size' offset)
           \<le> int (unat (wfs_file_entry_get_size entry)) - int (unat offset)
         \<and> int (length (fst (snd (wfs_read img path size' offset))))
             = fst (wfs_read img path size' offset)"
proof -
  have "wfs_find_entry img path = (Some entry, snd (wfs_find_entry img path))"
    using assms(1) by (metis prod.collapse)
  then show ?thesis using assms(2) by (rule read_result)
qed

theorem read_never_past_size_witness:
  "fst (wfs_find_entry image_one_file [47, 102]) = Some entry_f
   \<and> 0 \<le> fst (wfs_read image_one_file [47, 102] 10 511)
   \<and> fst (wfs_read image_one_file [47, 102] 10 511) \<le> 512 - 511
   \<and> int (length (fst (snd (wfs_read image_one_file [47, 102] 10 511)))) = 1"
proof -
  have a: "fst (wfs_find_entry image_one_file [47, 102]) = Some entry_f" by (simp add: find_f)
  have b: "0 \<le> fst (wfs_read image_one_file [47, 102] 10 511)" by (simp add: read_f_511)
  show ?thesis
    using read_never_past_size [OF a b] a by (simp add: read_f_511 get_size_f)
qed

section \<open>C3: a regular file in the middle of a path\<close>

lemma entry_f_not_empty: "\<not> wfs_file_entry_is_empty entry_f"
  by (simp add: entry_f_def wfs_file_entry_is_empty_def char_at_def WFS_BLOCK_FREE_def)

lemma entrystart_of_f: "entrystart_of entry_f = 36880"
  using entry_f_not_empty
  by (simp add: entrystart_of_def wfs_get_block_offset_def layout_defs entry_f_def)

lemma slot_x: "slot image_one_file 36880 = entry_x"
  by (simp add: slot_eval image_one_file_def entry_x_def replicate_num)

lemmas path_eval = plain_def stops_def slash_def wfs_file_entry_is_empty_def
  char_at_def WFS_BLOCK_FREE_def strncmp_eq_0_iff cstr_def WFS_FILENAME_SIZE_def

text \<open>
  C3.  The claim: the resolver requires the current entry to be a directory before it
  looks up the next component in it, so that a path through a regular file fails.  The
  code: \<open>wfs_find_entry\<close> hands the entry found to \<open>wfs_file_entry_operation\<close>
  unchecked.  On the example image \<open>/f\<close> is a regular file, and \<open>/f/x\<close> resolves: to
  the record that the first 64 bytes of the data of \<open>f\<close> spell.
\<close>

theorem file_used_as_directory:
  "fst (wfs_find_entry image_one_file [47, 102]) = Some entry_f
   \<and> wfs_file_entry_is_directory entry_f = False
   \<and> fst (wfs_find_entry image_one_file [47, 102, 47, 120]) = Some entry_x"
proof -
  let ?img1 = "image_one_file\<lparr>preads := preads image_one_file @ slot_reads (entrystart_of zero_entry) 0 (Suc 0)\<rparr>"
  have s1: "wfs_find_entry_loop image_one_file (slash # [102] @ [47, 120]) zero_entry =
        wfs_find_entry_loop ?img1 [47, 120]
          (slot image_one_file (entrystart_of zero_entry + 0 * sizeof_entry))"
    by (rule find_loop_step_hit) (simp_all add: path_eval slot_f entry_f_def)
  let ?img2 = "?img1\<lparr>preads := preads ?img1 @ slot_reads (entrystart_of entry_f) 0 (Suc 0)\<rparr>"
  have s2: "wfs_find_entry_loop ?img1 (slash # [120] @ []) entry_f =
        wfs_find_entry_loop ?img2 [] (slot ?img1 (entrystart_of entry_f + 0 * sizeof_entry))"
    by (rule find_loop_step_hit) (simp_all add: path_eval entrystart_of_f slot_x entry_x_def)
  have "fst (wfs_find_entry image_one_file [47, 102, 47, 120]) = Some entry_x"
    using s1 s2
    by (simp add: wfs_find_entry_def strlen_def char_at_def slash_def find_loop_end slot_f
        slot_x entrystart_of_f)
  moreover have "wfs_file_entry_is_directory entry_f = False"
    by (simp add: wfs_file_entry_is_directory_def entry_f_def WFS_SIZE_IS_DIRECTORY_def)
  ultimately show ?thesis by (simp add: find_f)
qed

section \<open>C2: the root table\<close>

lemma find_root: "wfs_find_entry img [47] = (Some zero_entry, img)"
proof -
  have "find_parse [47] = Done"
    by (simp add: find_parse_def slash_def strnlen_def strlen_def Let_def)
  then show ?thesis
    by (simp add: wfs_find_entry_def strlen_def char_at_def slash_def find_loop_unfold)
qed

lemma root_slots_empty:
  "list_all (\<lambda>j. contents image_root_slot_16 (16 + j * sizeof_entry) = 0) [0..<16]"
  by (auto simp: image_root_slot_16_def image_of_def sizeof_entry_def list_all_iff)

text \<open>
  C2.  The claim: lookups and listings of the root scan all 64 slots of the root table.
  The code scans 16 (\<open>aantalfiles\<close>): the entry \<open>a\<close> in slot 16 is not empty, yet
  \<open>/a\<close> is not found, after reads of the slots 0 to 15 only, and \<open>readdir\<close> of the
  root lists \<open>.\<close> and \<open>..\<close> alone.
\<close>

theorem root_slot_16_not_scanned:
  "slot image_root_slot_16 (WFS_ENTRIES_START + 16 * sizeof_entry) = entry_a
   \<and> wfs_file_entry_is_empty entry_a = False
   \<and> fst (wfs_find_entry image_root_slot_16 [47, 97]) = None
   \<and> fst (wfs_readdir image_root_slot_16 [47] []) = 0
   \<and> fst (snd (wfs_readdir image_root_slot_16 [47] [])) = [[46], [46, 46]]
   \<and> preads (snd (wfs_find_entry image_root_slot_16 [47, 97])) = slot_reads 16 0 16"
proof -
  have a: "slot image_root_slot_16 (WFS_ENTRIES_START + 16 * sizeof_entry) = entry_a"
    by (simp add: slot_eval image_root_slot_16_def entry_a_def replicate_num)
  have b: "wfs_file_entry_is_empty entry_a = False"
    by (simp add: entry_a_def wfs_file_entry_is_empty_def char_at_def WFS_BLOCK_FREE_def)
  have s: "wfs_find_entry_loop image_root_slot_16 (slash # [97] @ []) zero_entry =
      (None, image_root_slot_16\<lparr>preads := preads image_root_slot_16
                @ slot_reads (entrystart_of zero_entry) 0 16\<rparr>)"
    by (rule find_loop_step_miss) (simp_all add: path_eval root_slots_empty)
  have c: "wfs_find_entry image_root_slot_16 [47, 97]
        = (None, image_root_slot_16\<lparr>preads := slot_reads 16 0 16\<rparr>)"
    using s by (simp add: wfs_find_entry_def strlen_def char_at_def slash_def
        image_root_slot_16_def)
  have z: "wfs_file_entry_is_empty zero_entry"
    by (simp add: zero_entry_def wfs_file_entry_is_empty_def WFS_BLOCK_FREE_def)
  have d: "wfs_readdir image_root_slot_16 [47] []
        = (0, [[46], [46, 46]], image_root_slot_16\<lparr>preads := preads image_root_slot_16 @ slot_reads 16 0 16\<rparr>)"
    using file_entry_loop_all_empty_exact [OF root_slots_empty,
        of WFS_FILE_ENTRY_OP_CALLBACK wfs_readdir_callback 0 zero_entry "[[46], [46, 46]]"] z
    by (simp add: wfs_readdir_def find_root file_entry_operation_unfold Let_def)
  show ?thesis using a b by (simp add: c d)
qed

section \<open>C1: directories other than the root\<close>

lemma preads_dir: "preads image_dir = []"
  by (simp add: image_dir_def)

lemma slot_d: "slot image_dir 16 = entry_d"
  by (simp add: slot_eval image_dir_def entry_d_def replicate_num)

lemma entry_d_not_empty: "\<not> wfs_file_entry_is_empty entry_d"
  by (simp add: entry_d_def wfs_file_entry_is_empty_def char_at_def WFS_BLOCK_FREE_def)

lemma entrystart_of_d: "entrystart_of entry_d = 36880"
  using entry_d_not_empty
  by (simp add: entrystart_of_def wfs_get_block_offset_def layout_defs entry_d_def)

lemma slot_dx: "slot image_dir 37904 = entry_dx"
  by (simp add: slot_eval image_dir_def entry_dx_def replicate_num)

lemma dir_slots_empty_16:
  "list_all (\<lambda>j. contents image_dir (36880 + j * sizeof_entry) = 0) [0..<16]"
  by (auto simp: image_dir_def image_of_def sizeof_entry_def list_all_iff)

lemma next_block_dir:
  "fst (wfs_get_next_block image_dir 1) = 3"
  "fst (wfs_get_next_block image_dir 3) = 4"
  "fst (wfs_get_next_block image_dir 4) = WFS_BLOCK_EOF"
  by (simp_all add: wfs_get_next_block_def wfs_block_table_read_def to_uint16_def pread_def
      buffer_def le16_def char_at_def layout_defs WFS_BLOCK_EOF_def Let_def image_dir_def
      image_of_def)

text \<open>
  C1.  The claim: a lookup in a directory other than the root goes through every block of
  the directory's chain, 8 slots a block, to the end of the chain.  The code reads 16
  slots from the start of the first block on, which are the blocks 1 and 2 as they lie in
  the image, and never asks for the next block.  On the example image the chain of \<open>d\<close>
  is 1, 3, 4; the entry \<open>x\<close> lies in block 3; \<open>/d/x\<close> is not found, after one read in
  the root table and 16 reads from the offset of block 1 on.
\<close>

theorem directory_scan_ignores_chain:
  "fst (wfs_find_entry image_dir [47, 100]) = Some entry_d
   \<and> wfs_file_entry_is_directory entry_d = True
   \<and> fst (wfs_get_next_block image_dir 1) = 3
   \<and> fst (wfs_get_next_block image_dir 3) = 4
   \<and> fst (wfs_get_next_block image_dir 4) = WFS_BLOCK_EOF
   \<and> slot image_dir (wfs_get_block_offset (3 - 1)) = entry_dx
   \<and> wfs_file_entry_is_empty entry_dx = False
   \<and> wfs_find_entry image_dir [47, 100, 47, 120]
       = (None, image_dir\<lparr>preads := slot_reads 16 0 1
              @ slot_reads (wfs_get_block_offset (1 - 1)) 0 16\<rparr>)"
proof -
  let ?img1 = "image_dir\<lparr>preads := preads image_dir @ slot_reads (entrystart_of zero_entry) 0 (Suc 0)\<rparr>"
  have s0: "wfs_find_entry_loop image_dir (slash # [100] @ []) zero_entry =
        wfs_find_entry_loop ?img1 [] (slot image_dir (entrystart_of zero_entry + 0 * sizeof_entry))"
    by (rule find_loop_step_hit) (simp_all add: path_eval slot_d entry_d_def)
  have sx: "wfs_find_entry_loop image_dir (slash # [100] @ [47, 120]) zero_entry =
        wfs_find_entry_loop ?img1 [47, 120]
          (slot image_dir (entrystart_of zero_entry + 0 * sizeof_entry))"
    by (rule find_loop_step_hit) (simp_all add: path_eval slot_d entry_d_def)
  have mx: "wfs_find_entry_loop ?img1 (slash # [120] @ []) entry_d =
        (None, ?img1\<lparr>preads := preads ?img1 @ slot_reads (entrystart_of entry_d) 0 16\<rparr>)"
    by (rule find_loop_step_miss) (simp_all add: path_eval entrystart_of_d dir_slots_empty_16)
  have d: "fst (wfs_find_entry image_dir [47, 100]) = Some entry_d"
    using s0 by (simp add: wfs_find_entry_def strlen_def char_at_def slash_def find_loop_end slot_d)
  have x: "wfs_find_entry image_dir [47, 100, 47, 120]
       = (None, image_dir\<lparr>preads := slot_reads 16 0 1 @ slot_reads 36880 0 16\<rparr>)"
    using sx mx
    by (simp add: wfs_find_entry_def strlen_def char_at_def slash_def slot_d entrystart_of_d
        preads_dir)
  have dd: "wfs_file_entry_is_directory entry_d = True"
    by (simp add: wfs_file_entry_is_directory_def entry_d_def WFS_SIZE_IS_DIRECTORY_def)
  have e: "wfs_file_entry_is_empty entry_dx = False"
    by (simp add: entry_dx_def wfs_file_entry_is_empty_def char_at_def WFS_BLOCK_FREE_def)
  have o2: "wfs_get_block_offset 2 = 37904" "wfs_get_block_offset 0 = 36880"
    by (simp_all add: wfs_get_block_offset_def layout_defs)
  show ?thesis
    using next_block_dir by (simp add: d x dd e o2 slot_dx)
qed

section \<open>C7: components that are too long\<close>

lemma components_Nil: "components [] = []"
  using path_shape_done(1) [of "[]"] by simp

lemma components_single:
  assumes "cmp \<noteq> []" "plain cmp"
  shows "components (slash # cmp) = [cmp]"
proof -
  obtain c t where ct: "cmp = c # t" using assms(1) by (cases cmp) auto
  have c: "c \<noteq> slash" "c \<noteq> 0" using assms(2) ct by (simp_all add: plain_def)
  have d: "dropWhile (\<lambda>c. c = slash) (slash # cmp) = c # t" using c ct by simp
  have st: "stops (slash # cmp)" by (simp add: stops_def)
  have all: "\<forall>x\<in>set (c # t). x \<noteq> slash \<and> x \<noteq> 0"
    using assms(2) ct by (simp add: plain_def list_all_iff)
  have tw: "takeWhile (\<lambda>c. c \<noteq> slash \<and> c \<noteq> 0) (c # t) = c # t"
    using all by (simp only: takeWhile_eq_all_conv)
  have dw: "dropWhile (\<lambda>c. c \<noteq> slash \<and> c \<noteq> 0) (c # t) = []"
    using all by (simp only: dropWhile_eq_Nil_conv)
  show ?thesis
    using path_shape_component(1) [OF st d c(2)] by (simp only: tw dw components_Nil ct)
qed

lemma root_path_components: "is_root_path path \<Longrightarrow> components path = []"
proof -
  assume "is_root_path path"
  then have t: "takeWhile (\<lambda>c. c \<noteq> 0) path = [slash]" by (simp add: is_root_path_def cstr_def)
  then obtain x xs where p: "path = x # xs" by (cases path) auto
  from t p have x: "x = slash" and r: "takeWhile (\<lambda>c. c \<noteq> 0) xs = []"
    by (auto split: if_splits)
  from r have "xs = [] \<or> (\<exists>t. xs = 0 # t)" by (cases xs) (auto split: if_splits)
  then have "dropWhile (\<lambda>c. c = slash) path = [] \<or> (\<exists>t. dropWhile (\<lambda>c. c = slash) path = 0 # t)"
    using p x by (auto simp: slash_def)
  then show ?thesis by (rule path_shape_done(1))
qed

lemma components_59: "components (47 # replicate 59 97) = [replicate 59 97]"
proof -
  have "components (slash # replicate 59 97) = [replicate 59 97]"
    by (rule components_single) (simp_all add: plain_def list_all_iff slash_def)
  then show ?thesis by (simp add: slash_def)
qed

lemma long_path_59: "list_ex (\<lambda>c. 56 \<le> length c) (components (47 # replicate 59 97))"
  by (simp add: components_59)

lemma absolute_stops: "absolute pre \<Longrightarrow> stops pre"
  by (cases pre) (auto simp: absolute_def stops_def)

lemma find_loop_long_after:
  assumes "plain cmp" "56 \<le> length cmp" "stops rest"
  shows "absolute pre \<Longrightarrow> list_all (\<lambda>c. c \<noteq> 0) pre \<Longrightarrow>
     wfs_find_entry_loop img (pre @ slash # cmp @ rest) cur
       = (None, snd (wfs_find_entry_loop img pre cur))"
proof (induction pre arbitrary: img cur rule: length_induct)
  case (1 pre)
  have ne: "cmp \<noteq> []" using assms(2) by auto
  have long: "find_parse (slash # cmp @ rest) = TooLong"
    using find_parse_component [OF ne assms(1,3)] assms(2) by simp
  let ?S = "slash # cmp @ rest"
  let ?q = "dropWhile (\<lambda>c. c = slash) pre"
  show ?case
  proof (cases ?q)
    case Nil
    then have pre: "pre = replicate (length (takeWhile (\<lambda>c. c = slash) pre)) slash"
      by (metis Nil append_Nil2 split_slashes)
    define k where "k = length (takeWhile (\<lambda>c. c = slash) pre)"
    have pk: "pre = replicate k slash" using pre by (simp only: k_def)
    have "pre @ ?S = replicate (Suc k) slash @ cmp @ rest"
      by (simp only: pk replicate_app_Cons_same append_Cons replicate_Suc)
    then have "find_parse (pre @ ?S) = find_parse (replicate (Suc k) slash @ cmp @ rest)"
      by (rule arg_cong)
    also have "\<dots> = find_parse (slash # cmp @ rest)" by (rule find_parse_replicate)
    finally have "find_parse (pre @ ?S) = TooLong" using long by (simp only:)
    then have a: "wfs_find_entry_loop img (pre @ ?S) cur = (None, img)"
      by (subst find_loop_unfold) simp
    have "find_parse pre = Done" using path_shape_done(2) [of pre] Nil by simp
    then have "wfs_find_entry_loop img pre cur = (Some cur, img)"
      by (subst find_loop_unfold) simp
    then show ?thesis using a by simp
  next
    case (Cons c t)
    have cin: "c \<in> set pre" using Cons set_dropWhileD [of c "\<lambda>c. c = slash" pre] by simp
    have c0: "c \<noteq> 0" using cin "1.prems"(2) by (auto simp: list_all_iff)
    have cs: "c \<noteq> slash" using hd_dropWhile [of "\<lambda>c. c = slash" pre] Cons by auto
    define cmp1 where "cmp1 = takeWhile (\<lambda>c. c \<noteq> slash \<and> c \<noteq> 0) (c # t)"
    define rest1 where "rest1 = dropWhile (\<lambda>c. c \<noteq> slash \<and> c \<noteq> 0) (c # t)"
    note sh = path_shape_component [OF absolute_stops [OF "1.prems"(1)] Cons c0,
        folded cmp1_def rest1_def]
    have pne: "pre \<noteq> []" using Cons by auto
    then have stP: "stops (pre @ ?S)"
      using "1.prems"(1) by (cases pre) (auto simp: absolute_def stops_def)
    have dP: "dropWhile (\<lambda>c. c = slash) (pre @ ?S) = c # (t @ ?S)"
      using dropWhile_append1 [of c pre "\<lambda>c. c = slash" ?S] cin cs Cons by simp
    have tw: "takeWhile (\<lambda>c. c \<noteq> slash \<and> c \<noteq> 0) (c # t @ ?S) = cmp1"
      using takeWhile_tail [of "\<lambda>c. c \<noteq> slash \<and> c \<noteq> 0" slash "c # t" "cmp @ rest"]
      by (simp add: cmp1_def)
    have dw: "dropWhile (\<lambda>c. c \<noteq> slash \<and> c \<noteq> 0) (c # t @ ?S) = rest1 @ ?S"
      using dropWhile_append3 [of "\<lambda>c. c \<noteq> slash \<and> c \<noteq> 0" slash "c # t" "cmp @ rest"]
      by (simp add: rest1_def)
    note shP = path_shape_component [OF stP dP c0, unfolded tw dw]
    have sub: "set rest1 \<subseteq> set pre"
    proof
      fix x assume "x \<in> set rest1"
      then have "x \<in> set (c # t)" unfolding rest1_def by (rule set_dropWhileD)
      then show "x \<in> set pre" using Cons set_dropWhileD [of x "\<lambda>c. c = slash" pre] by simp
    qed
    have nz1: "list_all (\<lambda>c. c \<noteq> 0) rest1"
      using sub "1.prems"(2) by (auto simp: list_all_iff)
    have ab1: "absolute rest1"
      using sh(3) nz1 by (cases rest1) (auto simp: stops_def absolute_def)
    show ?thesis
    proof (cases "56 \<le> length cmp1")
      case True
      have "wfs_find_entry_loop img (pre @ ?S) cur = (None, img)"
        using shP(2) True by (subst find_loop_unfold) simp
      moreover have "wfs_find_entry_loop img pre cur = (None, img)"
        using sh(2) True by (subst find_loop_unfold) simp
      ultimately show ?thesis by simp
    next
      case False
      let ?e = "zero_entry\<lparr>filename := cmp1 @ replicate (58 - length cmp1) 0\<rparr>"
      obtain r cur' d img' where op:
        "wfs_file_entry_operation img cur WFS_FILE_ENTRY_OP_FIND ?e (\<lambda>_ d. d) () = (r, cur', d, img')"
        by (metis prod_cases4)
      have eP: "wfs_find_entry_loop img (pre @ ?S) cur =
          (if r \<le> 0 then (None, img') else wfs_find_entry_loop img' (rest1 @ ?S) cur')"
        using False shP(2) plain_name_first [OF sh(4,5)] op by (subst find_loop_unfold) simp
      have ep: "wfs_find_entry_loop img pre cur =
          (if r \<le> 0 then (None, img') else wfs_find_entry_loop img' rest1 cur')"
        using False sh(2) plain_name_first [OF sh(4,5)] op by (subst find_loop_unfold) simp
      have IH: "wfs_find_entry_loop img' (rest1 @ ?S) cur'
          = (None, snd (wfs_find_entry_loop img' rest1 cur'))"
        using "1.IH" sh(6) ab1 nz1 by blast
      show ?thesis using eP ep IH by simp
    qed
  qed
qed


lemma find_entry_long_after:
  assumes "absolute pre" "list_all (\<lambda>c. c \<noteq> 0) pre" "plain cmp" "56 \<le> length cmp" "stops rest"
  shows "wfs_find_entry img (pre @ slash # cmp @ rest) = (None, snd (wfs_find_entry img pre))"
proof (cases pre)
  case Nil
  have "wfs_find_entry_loop img ([] @ slash # cmp @ rest) zero_entry
          = (None, snd (wfs_find_entry_loop img [] zero_entry))"
    by (rule find_loop_long_after [OF assms(3,4,5)]) (simp_all add: absolute_def)
  then show ?thesis
    using Nil by (simp add: wfs_find_entry_def strlen_def char_at_def slash_def find_loop_end)
next
  case (Cons c t)
  then have c: "c = slash" using assms(1) by (simp add: absolute_def)
  have "wfs_find_entry_loop img (pre @ slash # cmp @ rest) zero_entry
          = (None, snd (wfs_find_entry_loop img pre zero_entry))"
    using assms(1,2) by (rule find_loop_long_after [OF assms(3,4,5)])
  then show ?thesis
    using Cons c by (simp add: wfs_find_entry_def strlen_def char_at_def slash_def)
qed

lemma long_path_not_root:
  assumes "list_all (\<lambda>c. c \<noteq> 0) pre" "plain cmp" "cmp \<noteq> []"
  shows "\<not> is_root_path (pre @ slash # cmp @ rest)"
proof -
  have "\<forall>x\<in>set pre. x \<noteq> 0" using assms(1) by (simp add: list_all_iff)
  then have "takeWhile (\<lambda>c. c \<noteq> 0) (pre @ slash # cmp @ rest)
        = pre @ takeWhile (\<lambda>c. c \<noteq> 0) (slash # cmp @ rest)"
    by simp
  also have "\<dots> = pre @ slash # cmp @ takeWhile (\<lambda>c. c \<noteq> 0) rest"
    using cstr_plain [OF assms(2), of rest] by (simp add: slash_def)
  finally have "length (cstr (pre @ slash # cmp @ rest)) \<ge> 2"
    using assms(3) by (cases cmp) (simp_all add: cstr_def)
  then show ?thesis by (auto simp: is_root_path_def)
qed

lemma get_parent_entry_of:
  assumes "list_all (\<lambda>c. c \<noteq> 0) dir" "dir \<noteq> []" "base \<noteq> []" "plain base"
  shows "wfs_get_parent_entry img (dir @ slash # base) pe =
     (case wfs_find_entry img dir of
        (None, img') \<Rightarrow> (- ENOENT, pe, img')
      | (Some e, img') \<Rightarrow>
          if \<not> wfs_file_entry_is_empty e \<and> \<not> wfs_file_entry_is_directory e
          then (- EIO, e, img') else (0, e, img'))"
proof -
  let ?X = "dir @ slash # base"
  have bs: "\<forall>x\<in>set base. x \<noteq> slash \<and> x \<noteq> 0" using assms(4) by (simp add: plain_def list_all_iff)
  have "\<forall>x\<in>set ?X. x \<noteq> 0" using assms(1) bs by (auto simp: list_all_iff slash_def)
  then have cx: "cstr ?X = ?X" unfolding cstr_def by (simp only: takeWhile_eq_all_conv)
  obtain b bt where rb: "rev base = b # bt" using assms(3) by (cases "rev base") auto
  have b: "b \<noteq> slash" using bs rb by (metis list.set_intros(1) set_rev)
  have "rev ?X = b # (bt @ slash # rev dir)" using rb by simp
  then have "dropWhile (\<lambda>c. c = slash) (rev ?X) = rev ?X" using b by simp
  then have dts: "drop_trailing_slashes ?X = ?X" by (simp add: drop_trailing_slashes_def cx)
  have sl: "strlen ?X \<noteq> 0" using cx by (simp add: strlen_def cstr_def)
  have "takeWhile (\<lambda>c. c \<noteq> slash) (rev base @ slash # rev dir) = takeWhile (\<lambda>c. c \<noteq> slash) (rev base)"
    by (rule takeWhile_tail) simp
  also have "\<dots> = rev base" using bs by (simp only: takeWhile_eq_all_conv set_rev) simp
  finally have "takeWhile (\<lambda>c. c \<noteq> slash) (rev ?X) = rev base" by simp
  then have sr: "strrchr_slash ?X = Some (length dir)"
    by (simp add: strrchr_slash_def cx)
  show ?thesis
    using assms(2) sl
    by (simp add: wfs_get_parent_entry_def dts sr Let_def split: prod.splits option.splits)
qed

text \<open>
  C7 as the code has it.  Let a path consist of \<open>pre\<close> (nothing, or bytes that start
  with \<open>/\<close>, none of them NUL), a \<open>/\<close>, a component \<open>cmp\<close> longer than the 57 bytes the
  name field holds besides its terminator, and a rest.  Its resolution fails, and it
  leaves the image and the log of reads exactly as the resolution of \<open>pre\<close> alone leaves
  them: no lookup is made for \<open>cmp\<close> or after it.  The failure is the plain false of
  \<open>wfs_find_entry\<close>; all its callers (\<open>wfs_getattr\<close>, \<open>wfs_readdir\<close>, \<open>wfs_open\<close>,
  \<open>wfs_read\<close>, and \<open>wfs_get_parent_entry\<close> for the directory part of a longer path)
  return \<open>-ENOENT\<close>, the code of a name that is not found.
\<close>

theorem long_component_fails_before_lookup:
  assumes "absolute pre" and "list_all (\<lambda>c. c \<noteq> 0) pre"
    and "plain cmp" and "WFS_FILENAME_SIZE - 1 < length cmp" and "stops rest"
  shows "wfs_find_entry img (pre @ slash # cmp @ rest) = (None, snd (wfs_find_entry img pre))
     \<and> wfs_getattr img (pre @ slash # cmp @ rest)
         = (- ENOENT, \<lparr>st_mode = 0, st_nlink = 0, st_size = 0\<rparr>, snd (wfs_find_entry img pre))
     \<and> wfs_readdir img (pre @ slash # cmp @ rest) buf
         = (- ENOENT, buf, snd (wfs_find_entry img pre))
     \<and> wfs_open img (pre @ slash # cmp @ rest) = (- ENOENT, snd (wfs_find_entry img pre))
     \<and> wfs_read img (pre @ slash # cmp @ rest) size' offset
         = (- ENOENT, [], snd (wfs_find_entry img pre))
     \<and> (list_all (\<lambda>c. c \<noteq> 0) rest \<and> base \<noteq> [] \<and> plain base \<longrightarrow>
          wfs_get_parent_entry img ((pre @ slash # cmp @ rest) @ slash # base) parent_entry
            = (- ENOENT, parent_entry, snd (wfs_find_entry img pre)))"
proof -
  have l: "56 \<le> length cmp" using assms(4) by (simp add: WFS_FILENAME_SIZE_def)
  then have ne: "cmp \<noteq> []" by auto
  have f: "wfs_find_entry img (pre @ slash # cmp @ rest) = (None, snd (wfs_find_entry img pre))"
    using assms(1,2,3) l assms(5) by (rule find_entry_long_after)
  have nr: "\<not> is_root_path (pre @ slash # cmp @ rest)"
    using assms(2,3) ne by (rule long_path_not_root)
  have p: "wfs_get_parent_entry img ((pre @ slash # cmp @ rest) @ slash # base) parent_entry
            = (- ENOENT, parent_entry, snd (wfs_find_entry img pre))"
    if "list_all (\<lambda>c. c \<noteq> 0) rest" "base \<noteq> []" "plain base"
  proof -
    have "list_all (\<lambda>c. c \<noteq> 0) (pre @ slash # cmp @ rest)"
      using assms(2,3) that(1) by (auto simp: list_all_iff plain_def slash_def)
    then show ?thesis
      using get_parent_entry_of [of "pre @ slash # cmp @ rest" base img parent_entry] that(2,3) f
      by simp
  qed
  show ?thesis
    using f nr p by (simp add: wfs_getattr_def wfs_readdir_def wfs_open_def wfs_read_def)
qed

theorem long_component_fails_before_lookup_witness:
  "absolute [47, 102] \<and> list_all (\<lambda>c. c \<noteq> 0) [47, 102 :: byte] \<and> plain (replicate 58 97)
   \<and> WFS_FILENAME_SIZE - 1 < length (replicate 58 (97 :: byte)) \<and> stops []
   \<and> wfs_find_entry image_one_file [47, 102] = (Some entry_f, image_one_file\<lparr>preads := [(16, 64)]\<rparr>)
   \<and> wfs_find_entry image_one_file ([47, 102] @ slash # replicate 58 97 @ [])
       = (None, image_one_file\<lparr>preads := [(16, 64)]\<rparr>)
   \<and> wfs_open image_one_file ([47, 102] @ slash # replicate 58 97 @ [])
       = (- ENOENT, image_one_file\<lparr>preads := [(16, 64)]\<rparr>)
   \<and> wfs_get_parent_entry image_one_file (([47, 102] @ slash # replicate 58 97 @ []) @ slash # [120])
         zero_entry
       = (- ENOENT, zero_entry, image_one_file\<lparr>preads := [(16, 64)]\<rparr>)"
proof -
  have a: "absolute [47, 102]" by (simp add: absolute_def slash_def)
  have b: "list_all (\<lambda>c. c \<noteq> 0) [47, 102 :: byte]" by simp
  have c: "plain (replicate 58 97)" by (simp add: plain_def list_all_iff slash_def)
  have d: "WFS_FILENAME_SIZE - 1 < length (replicate 58 (97 :: byte))"
    by (simp add: WFS_FILENAME_SIZE_def)
  have e: "stops []" by (simp add: stops_def)
  have g: "list_all (\<lambda>c. c \<noteq> 0) ([] :: byte list) \<and> [120 :: byte] \<noteq> [] \<and> plain [120]"
    by (simp add: plain_def slash_def)
  show ?thesis
    using long_component_fails_before_lookup [OF a b c d e, of image_one_file "[]" 0 0 "[120]" zero_entry]
      a b c d e g
    by (simp add: find_f)
qed

text \<open>
  C7 as claimed (a distinct name-too-long error) is false: opening a path whose component
  has 59 bytes, more than the whole name field, fails with \<open>-ENOENT\<close>.
\<close>

theorem long_component_counterexample:
  "fst (wfs_open image_one_file (47 # replicate 59 97)) = - ENOENT
   \<and> - ENOENT \<noteq> - ENAMETOOLONG"
proof -
  have "fst (wfs_find_entry image_one_file (47 # replicate 59 97)) = None"
    using long_path_59 by (rule find_entry_long_component)
  then obtain img' where "wfs_find_entry image_one_file (47 # replicate 59 97) = (None, img')"
    by (metis prod.collapse)
  then show ?thesis by (simp add: wfs_open_def ENOENT_def ENAMETOOLONG_def)
qed

section \<open>C10: names of 56 and 57 bytes\<close>

lemma slot_long: "slot image_long_name 16 = entry_long"
  by (simp add: slot_eval image_long_name_def entry_long_def replicate_num upt_rec_numeral)

lemma components_56: "components (47 # replicate 56 97) = [replicate 56 97]"
proof -
  have "components (slash # replicate 56 97) = [replicate 56 97]"
    by (rule components_single) (simp_all add: plain_def list_all_iff slash_def)
  then show ?thesis by (simp add: slash_def)
qed

text \<open>
  C10.  Path resolution refuses every component of 56 bytes or more, and every entry a
  path resolves to has a name shorter than 56 bytes: no path resolves to an entry of the
  image whose name is 56 or 57 bytes long.
\<close>

theorem names_of_56_bytes_unreachable:
  "(list_ex (\<lambda>c. 56 \<le> length c) (components path) \<longrightarrow> fst (wfs_find_entry img path) = None)
   \<and> (fst (wfs_find_entry img path) = Some e \<longrightarrow> strnlen (filename e) WFS_FILENAME_SIZE < 56)"
  using find_entry_long_component [of path img] find_entry_name_short [of img path e]
  by blast

theorem names_of_56_bytes_unreachable_witness:
  "strnlen (filename (slot image_long_name 16)) WFS_FILENAME_SIZE = 56
   \<and> wfs_file_entry_is_empty (slot image_long_name 16) = False
   \<and> list_ex (\<lambda>c. 56 \<le> length c) (components (47 # replicate 56 97))
   \<and> fst (wfs_find_entry image_long_name (47 # replicate 56 97)) = None
   \<and> fst (wfs_find_entry image_one_file [47, 102]) = Some entry_f
   \<and> strnlen (filename entry_f) WFS_FILENAME_SIZE < 56"
proof -
  have a: "strnlen (filename (slot image_long_name 16)) WFS_FILENAME_SIZE = 56"
    by (simp add: slot_long entry_long_def strnlen_def strlen_def WFS_FILENAME_SIZE_def
        replicate_num)
  have b: "wfs_file_entry_is_empty (slot image_long_name 16) = False"
    by (simp add: slot_long entry_long_def wfs_file_entry_is_empty_def char_at_def
        WFS_BLOCK_FREE_def replicate_num)
  have c: "list_ex (\<lambda>c. 56 \<le> length c) (components (47 # replicate 56 97))"
    by (simp add: components_56)
  have d: "fst (wfs_find_entry image_one_file [47, 102]) = Some entry_f" by (simp add: find_f)
  show ?thesis
    using names_of_56_bytes_unreachable [of "47 # replicate 56 97" image_long_name entry_f]
      names_of_56_bytes_unreachable [of "[47, 102]" image_one_file entry_f] a b c d
    by simp
qed

end
